theory Spec2Isabelle
  imports Main "HOL-Library.Multiset"
begin

section \<open>Strings, dictionaries and errors\<close>

text \<open>
  A Python \<open>str\<close> is a sequence of code points. It is modelled as a \<open>string\<close>, a list of
  8-bit characters read as the code points U+0000 to U+00FF. The string methods the
  program calls (\<open>lower\<close>, \<open>in\<close>, \<open>strip\<close>) are written out for that range.
\<close>

datatype py_error = KeyError | ZeroDivisionError | ValueError | UnicodeDecodeError | JSONDecodeError

text \<open>\<open>str.lower\<close>: the upper-case letters below U+0100 are A to Z and U+00C0 to U+00DE
  without the multiplication sign U+00D7; each has its lower-case letter 32 places later.\<close>

definition lower_char :: "char \<Rightarrow> char" where
  "lower_char c =
     (let n = (of_char c :: nat)
      in if (65 \<le> n \<and> n \<le> 90) \<or> (192 \<le> n \<and> n \<le> 222 \<and> n \<noteq> 215)
         then char_of (n + 32) else c)"

definition lower :: "string \<Rightarrow> string" where
  "lower s = map lower_char s"

text \<open>\<open>str.isspace\<close> on one character, the test that \<open>str.strip\<close> applies.\<close>

definition isspace :: "char \<Rightarrow> bool" where
  "isspace c =
     (let n = (of_char c :: nat)
      in (9 \<le> n \<and> n \<le> 13) \<or> (28 \<le> n \<and> n \<le> 32) \<or> n = 133 \<or> n = 160)"

definition strip :: "string \<Rightarrow> string" where
  "strip s = rev (dropWhile isspace (rev (dropWhile isspace s)))"

text \<open>\<open>kw in s\<close> on strings: \<open>kw\<close> occurs in \<open>s\<close> as a contiguous substring.\<close>

fun startswith :: "string \<Rightarrow> string \<Rightarrow> bool" where
  "startswith s [] = True"
| "startswith [] (k # ks) = False"
| "startswith (c # s) (k # ks) = (c = k \<and> startswith s ks)"

fun str_in :: "string \<Rightarrow> string \<Rightarrow> bool" where
  "str_in kw [] = (kw = [])"
| "str_in kw (c # s) = (startswith (c # s) kw \<or> str_in kw s)"

text \<open>
  A \<open>dict\<close> keeps its keys in insertion order, and the program iterates over it, so it is
  an association list with distinct keys. \<open>d[k]\<close> raises \<open>KeyError\<close> on a missing key.
\<close>

type_synonym ('k, 'v) dict = "('k \<times> 'v) list"

fun dict_get :: "('k, 'v) dict \<Rightarrow> 'k \<Rightarrow> py_error + 'v" where
  "dict_get [] k = Inl KeyError"
| "dict_get ((k', v) # d) k = (if k' = k then Inr v else dict_get d k)"

definition keys :: "('k, 'v) dict \<Rightarrow> 'k list" where
  "keys d = map fst d"

section \<open>Configuration\<close>

definition LR_TYPES :: "(string, string list) dict" where
  "LR_TYPES =
     [(''Strengthen'', [''strengthen'', ''support'']),
      (''Weaken'', [''weaken'', ''undermine'']),
      (''Assumption'', [''assume'', ''assumption'']),
      (''Flaw'', [''flaw'', ''error'', ''mistake'']),
      (''Inference'', [''infer'', ''inference'', ''follows'']),
      (''Principle'', [''principle'']),
      (''Parallel Reasoning'', [''parallel'']),
      (''Paradox'', [''paradox'']),
      (''Method of Reasoning'', [''method of reasoning'', ''method''])]"

definition RC_TYPES :: "(string, string list) dict" where
  "RC_TYPES =
     [(''Main Point'', [''main point'', ''primary purpose'']),
      (''Author's Attitude'', [''author's attitude'', ''tone'']),
      (''Inference'', [''infer'', ''inference'']),
      (''Function'', [''function of'']),
      (''Detail'', [''detail'', ''mention'']),
      (''Analogy'', [''analogy'']),
      (''Structure'', [''structure'', ''organized''])]"

type_synonym taxonomy = "(string, (string, string list) dict) dict"

definition QUESTION_TYPES :: taxonomy where
  "QUESTION_TYPES = [(''LR'', LR_TYPES), (''RC'', RC_TYPES)]"

definition DEFAULT_STRUCTURE :: "(string, int) dict" where
  "DEFAULT_STRUCTURE = [(''LR'', 25), (''RC'', 27)]"

section \<open>Classification\<close>

text \<open>\<open>any(kw in lc_text for kw in keywords)\<close>\<close>

definition any_kw :: "string list \<Rightarrow> string \<Rightarrow> bool" where
  "any_kw keywords lc_text = list_ex (\<lambda>kw. str_in kw lc_text) keywords"

text \<open>One \<open>for qtype, keywords in ....items()\<close> loop of \<open>classify_question\<close>: \<open>Some\<close> is
  the \<open>return qtype\<close> inside the loop, \<open>None\<close> is falling out of it.\<close>

fun first_match :: "(string, string list) dict \<Rightarrow> string \<Rightarrow> string option" where
  "first_match [] lc_text = None"
| "first_match ((qtype, keywords) # rest) lc_text =
     (if any_kw keywords lc_text then Some qtype else first_match rest lc_text)"

definition classify_question :: "string \<Rightarrow> py_error + string" where
  "classify_question text =
     (let lc_text = lower text
      in case dict_get QUESTION_TYPES ''LR'' of
           Inl e \<Rightarrow> Inl e
         | Inr lr \<Rightarrow>
             (case first_match lr lc_text of
                Some qtype \<Rightarrow> Inr qtype
              | None \<Rightarrow>
                  (case dict_get QUESTION_TYPES ''RC'' of
                     Inl e \<Rightarrow> Inl e
                   | Inr rc \<Rightarrow>
                       (case first_match rc lc_text of
                          Some qtype \<Rightarrow> Inr qtype
                        | None \<Rightarrow> Inr ''Unknown''))))"

text \<open>The classifier as the specification words it: the first category of the ordered
  taxonomy, LR before RC, one of whose keywords is a substring of the lower-cased text.\<close>

definition is_substring :: "string \<Rightarrow> string \<Rightarrow> bool" where
  "is_substring kw s = (\<exists>p q. s = p @ kw @ q)"

definition classify_spec :: "string \<Rightarrow> string" where
  "classify_spec text =
     (case find (\<lambda>(qtype, keywords). \<exists>kw \<in> set keywords. is_substring kw (lower text))
             (LR_TYPES @ RC_TYPES) of
        Some (qtype, keywords) \<Rightarrow> qtype
      | None \<Rightarrow> ''Unknown'')"

section \<open>Question records and the random generator\<close>

text \<open>A bank entry is the dict \<open>{"text": ..., "type": ..., "source": ...}\<close>.\<close>

record entry =
  q_text :: string
  q_type :: string
  q_source :: string

text \<open>
  The module \<open>random\<close> is library code. Its generator is modelled as the sequence of raw
  numbers it will produce; an operation consumes a prefix of it and returns the rest, so
  the generator state is threaded through every call as the global generator is.
  \<open>random.sample(population, k)\<close> raises \<open>ValueError\<close> unless \<open>0 \<le> k \<le> len(population)\<close>
  and otherwise returns \<open>k\<close> elements taken from distinct positions of the population, in
  selection order: each draw takes one element out of the remaining pool.
  \<open>random.shuffle\<close> rearranges a list in the same way. Probabilities are not part of the
  model.
\<close>

type_synonym rng = "nat \<Rightarrow> nat"

definition randbelow :: "rng \<Rightarrow> nat \<Rightarrow> nat \<times> rng" where
  "randbelow g n = (g 0 mod n, \<lambda>i. g (Suc i))"

fun draw :: "rng \<Rightarrow> 'a list \<Rightarrow> nat \<Rightarrow> 'a list \<times> rng" where
  "draw g pool 0 = ([], g)"
| "draw g pool (Suc k) =
     (if pool = [] then ([], g)
      else let (j, g1) = randbelow g (length pool);
               (rest, g2) = draw g1 (take j pool @ drop (Suc j) pool) k
           in (pool ! j # rest, g2))"

definition random_sample :: "rng \<Rightarrow> 'a list \<Rightarrow> int \<Rightarrow> py_error + ('a list \<times> rng)" where
  "random_sample g population k =
     (if k < 0 \<or> int (length population) < k then Inl ValueError
      else Inr (draw g population (nat k)))"

definition random_shuffle :: "rng \<Rightarrow> 'a list \<Rightarrow> 'a list \<times> rng" where
  "random_shuffle g xs = draw g xs (length xs)"

section \<open>Exam composition\<close>

text \<open>\<open>d[k] = v\<close>: an existing key keeps its place, a new key goes to the end.\<close>

fun dict_set :: "'k \<Rightarrow> 'v \<Rightarrow> ('k, 'v) dict \<Rightarrow> ('k, 'v) dict" where
  "dict_set k v [] = [(k, v)]"
| "dict_set k v ((k', v') # d) =
     (if k' = k then (k, v) # d else (k', v') # dict_set k v d)"

text \<open>\<open>for t in extra: counts[t] += 1\<close>\<close>

fun add_extras :: "string list \<Rightarrow> (string, int) dict \<Rightarrow> py_error + (string, int) dict" where
  "add_extras [] counts = Inr counts"
| "add_extras (t # ts) counts =
     (case dict_get counts t of
        Inl e \<Rightarrow> Inl e
      | Inr c \<Rightarrow> add_extras ts (dict_set t (c + 1) counts))"

text \<open>
  Lines 95 to 98 of \<open>generate_exam_text\<close>: \<open>divmod(total, len(types))\<close>, which raises
  \<open>ZeroDivisionError\<close> for an empty category list and rounds down as \<open>div\<close> on \<open>int\<close> does,
  the dict comprehension \<open>{t: base for t in types}\<close>, and one more slot for each category of
  \<open>random.sample(types, rem)\<close>.
\<close>

definition allocate :: "rng \<Rightarrow> string list \<Rightarrow> int \<Rightarrow> py_error + ((string, int) dict \<times> rng)" where
  "allocate g types total' =
     (if types = [] then Inl ZeroDivisionError
      else let base = total' div int (length types);
               rem = total' mod int (length types);
               counts = foldl (\<lambda>d t. dict_set t base d) [] types
           in case random_sample g types rem of
                Inl e \<Rightarrow> Inl e
              | Inr (extra, g') \<Rightarrow>
                  (case add_extras extra counts of
                     Inl e \<Rightarrow> Inl e
                   | Inr counts' \<Rightarrow> Inr (counts', g')))"

text \<open>\<open>str(n)\<close> for an integer, as the f-strings format it.\<close>

function str_nat :: "nat \<Rightarrow> string" where
  "str_nat n =
     (if n < 10 then [char_of (48 + n)]
      else str_nat (n div 10) @ [char_of (48 + n mod 10)])"
  by pat_completeness auto
termination
  by (relation "measure (\<lambda>n. n)") auto

definition str_int :: "int \<Rightarrow> string" where
  "str_int i = (if i < 0 then CHR ''-'' # str_nat (nat (- i)) else str_nat (nat i))"

text \<open>The message of \<open>logging.warning\<close> on line 102.\<close>

definition shortage_warning :: "string \<Rightarrow> int \<Rightarrow> nat \<Rightarrow> string" where
  "shortage_warning qtype cnt available =
     ''Not enough '' @ [CHR 0x27] @ qtype @ [CHR 0x27] @ '' questions: needed '' @ str_int cnt
       @ '', available '' @ str_int (int available)"

text \<open>
  Lines 100 to 103, the body of the loop over \<open>counts.items()\<close>, for one category: the
  records picked, the warnings logged and the generator afterwards.
\<close>

definition select_category ::
  "rng \<Rightarrow> entry list \<Rightarrow> string \<Rightarrow> int \<Rightarrow> py_error + (entry list \<times> string list \<times> rng)" where
  "select_category g section_questions qtype cnt =
     (let candidates = filter (\<lambda>q. q_type q = qtype) section_questions;
          warnings = (if int (length candidates) < cnt
                      then [shortage_warning qtype cnt (length candidates)] else [])
      in case random_sample g candidates (min cnt (int (length candidates))) of
           Inl e \<Rightarrow> Inl e
         | Inr (picked, g') \<Rightarrow> Inr (picked, warnings, g'))"

text \<open>The loop over \<open>counts.items()\<close>; \<open>selected.extend\<close> appends each category's picks.\<close>

fun category_loop ::
  "rng \<Rightarrow> entry list \<Rightarrow> (string, int) dict \<Rightarrow> py_error + (entry list \<times> string list \<times> rng)" where
  "category_loop g section_questions [] = Inr ([], [], g)"
| "category_loop g section_questions ((qtype, cnt) # rest) =
     (case select_category g section_questions qtype cnt of
        Inl e \<Rightarrow> Inl e
      | Inr (picked, warnings, g1) \<Rightarrow>
          (case category_loop g1 section_questions rest of
             Inl e \<Rightarrow> Inl e
           | Inr (selected, logged, g2) \<Rightarrow> Inr (picked @ selected, warnings @ logged, g2)))"

text \<open>\<open>[q for q in bank if q['type'] in types]\<close>\<close>

definition eligible :: "string list \<Rightarrow> entry list \<Rightarrow> entry list" where
  "eligible types bank = filter (\<lambda>q. q_type q \<in> set types) bank"

text \<open>
  The body of the loop over \<open>structure.items()\<close> for one section. The globals the function
  reads, \<open>QUESTION_TYPES\<close> and \<open>bank\<close>, are parameters.
\<close>

definition select_section ::
  "taxonomy \<Rightarrow> entry list \<Rightarrow> rng \<Rightarrow> string \<Rightarrow> int
     \<Rightarrow> py_error + (entry list \<times> string list \<times> rng)" where
  "select_section qt bank g section total' =
     (case dict_get qt section of
        Inl e \<Rightarrow> Inl e
      | Inr categories \<Rightarrow>
          (let types = keys categories;
               section_questions = eligible types bank
           in case allocate g types total' of
                Inl e \<Rightarrow> Inl e
              | Inr (counts, g1) \<Rightarrow> category_loop g1 section_questions counts))"

fun section_loop ::
  "taxonomy \<Rightarrow> entry list \<Rightarrow> rng \<Rightarrow> (string, int) dict
     \<Rightarrow> py_error + (entry list \<times> string list \<times> rng)" where
  "section_loop qt bank g [] = Inr ([], [], g)"
| "section_loop qt bank g ((section, total') # rest) =
     (case select_section qt bank g section total' of
        Inl e \<Rightarrow> Inl e
      | Inr (picked, warnings, g1) \<Rightarrow>
          (case section_loop qt bank g1 rest of
             Inl e \<Rightarrow> Inl e
           | Inr (selected, logged, g2) \<Rightarrow> Inr (picked @ selected, warnings @ logged, g2)))"

text \<open>Lines 91 to 104: the selection of all sections, shuffled.\<close>

definition compose ::
  "taxonomy \<Rightarrow> entry list \<Rightarrow> rng \<Rightarrow> (string, int) dict
     \<Rightarrow> py_error + (entry list \<times> string list \<times> rng)" where
  "compose qt bank g structure =
     (case section_loop qt bank g structure of
        Inl e \<Rightarrow> Inl e
      | Inr (selected, logged, g1) \<Rightarrow>
          (let (shuffled, g2) = random_shuffle g1 selected in Inr (shuffled, logged, g2)))"

text \<open>Lines 105 to 108: the numbered items, joined by newlines.\<close>

fun render_items :: "nat \<Rightarrow> entry list \<Rightarrow> string list" where
  "render_items i [] = []"
| "render_items i (q # qs) =
     (''Q'' @ str_int (int i) @ '' ['' @ q_type q @ ''] ('' @ q_source q @ ''):'' @ [CHR 0x0A]
        @ strip (q_text q) @ [CHR 0x0A]) # render_items (Suc i) qs"

fun join :: "string \<Rightarrow> string list \<Rightarrow> string" where
  "join sep [] = []"
| "join sep [x] = x"
| "join sep (x # y # ys) = x @ sep @ join sep (y # ys)"

definition generate_exam_text ::
  "taxonomy \<Rightarrow> entry list \<Rightarrow> rng \<Rightarrow> (string, int) dict
     \<Rightarrow> py_error + (string \<times> string list \<times> rng)" where
  "generate_exam_text qt bank g structure =
     (case compose qt bank g structure of
        Inl e \<Rightarrow> Inl e
      | Inr (selected, logged, g') \<Rightarrow>
          Inr (join [CHR 0x0A] (render_items 1 selected), logged, g'))"

text \<open>Names for what the claims count: the candidates of a type in a pool, the warnings a
  dict of counts must produce, and the number of records it can take.\<close>

definition available :: "entry list \<Rightarrow> string \<Rightarrow> nat" where
  "available pool qtype = length (filter (\<lambda>q. q_type q = qtype) pool)"

definition shortage_log :: "entry list \<Rightarrow> (string, int) dict \<Rightarrow> string list" where
  "shortage_log pool counts =
     concat (map (\<lambda>(qtype, cnt). if int (available pool qtype) < cnt
                                    then [shortage_warning qtype cnt (available pool qtype)]
                                    else []) counts)"

definition taken :: "entry list \<Rightarrow> (string, int) dict \<Rightarrow> int" where
  "taken pool counts = sum_list (map (\<lambda>(qtype, cnt). min cnt (int (available pool qtype))) counts)"

text \<open>A section the composer can serve: it is a key of the taxonomy, with a non-empty dict
  of categories.\<close>

definition known_section :: "taxonomy \<Rightarrow> string \<Rightarrow> bool" where
  "known_section qt section =
     (case dict_get qt section of
        Inl e \<Rightarrow> False
      | Inr categories \<Rightarrow> categories \<noteq> [] \<and> distinct (keys categories))"


section \<open>The question bank\<close>

text \<open>\<open>any(e['text'] == text for e in bank)\<close>\<close>

definition contains_text :: "entry list \<Rightarrow> string \<Rightarrow> bool" where
  "contains_text bank text = list_ex (\<lambda>e. q_text e = text) bank"

text \<open>
  Lines 128 to 137 of \<open>index\<close>, for one uploaded file that passed \<open>allowed_file\<close>, given its
  secured file name and the text extracted from it: the bank afterwards and the message
  flashed to the user.
\<close>

definition ingest :: "entry list \<Rightarrow> string \<Rightarrow> string \<Rightarrow> py_error + (entry list \<times> string)" where
  "ingest bank filename text =
     (if strip text = [] then Inr (bank, ''Failed to extract text from '' @ filename)
      else case classify_question text of
             Inl e \<Rightarrow> Inl e
           | Inr qtype \<Rightarrow>
               (let entry = \<lparr>q_text = text, q_type = qtype, q_source = filename\<rparr>
                in if \<not> contains_text bank text
                   then Inr (bank @ [entry], ''Ingested '' @ filename @ '' as '' @ qtype)
                   else Inr (bank, ''Duplicate '' @ filename @ ''; skipped.'')))"

text \<open>The loop over the uploaded files.\<close>

fun ingest_all ::
  "entry list \<Rightarrow> (string \<times> string) list \<Rightarrow> py_error + (entry list \<times> string list)" where
  "ingest_all bank [] = Inr (bank, [])"
| "ingest_all bank ((filename, text) # files) =
     (case ingest bank filename text of
        Inl e \<Rightarrow> Inl e
      | Inr (bank1, message) \<Rightarrow>
          (case ingest_all bank1 files of
             Inl e \<Rightarrow> Inl e
           | Inr (bank2, messages) \<Rightarrow> Inr (bank2, message # messages)))"

section \<open>Persistence\<close>

text \<open>
  The file system maps a path to the document stored there. \<open>json.load\<close> and \<open>json.dump\<close>
  are library code and are parameters: \<open>json_load\<close> returns the parsed bank or the
  exception it raises, \<open>JSONDecodeError\<close> for malformed JSON and \<open>UnicodeDecodeError\<close> for
  bytes that are not UTF-8. The second component of \<open>load_bank\<close> is what the start-up code
  logs: lines 51 to 59 contain no logging call.
\<close>

definition BANK_FILE :: string where
  "BANK_FILE = ''question_bank.json''"

type_synonym 'd filesystem = "string \<rightharpoonup> 'd"

definition load_bank ::
  "('d \<Rightarrow> py_error + entry list) \<Rightarrow> 'd filesystem \<Rightarrow> (py_error + entry list) \<times> string list" where
  "load_bank json_load fs =
     (case fs BANK_FILE of
        None \<Rightarrow> (Inr [], [])
      | Some document \<Rightarrow>
          (case json_load document of
             Inl e \<Rightarrow> (if e = JSONDecodeError then (Inr [], []) else (Inl e, []))
           | Inr bank \<Rightarrow> (Inr bank, [])))"


section \<open>Concrete inputs\<close>

definition sample_text :: string where
  "sample_text = ''Which one most STRENGTHENS the argument, and which would weaken it?''"

definition inference_record :: entry where
  "inference_record =
     \<lparr>q_text = ''What can be inferred from the passage?'', q_type = ''Inference'',
      q_source = ''q1.txt''\<rparr>"

text \<open>A taxonomy whose LR section has three categories, and a bank with three records of
  each.\<close>

definition three_categories :: taxonomy where
  "three_categories =
     [(''LR'', [(''Strengthen'', [''strengthen'']), (''Weaken'', [''weaken'']),
               (''Flaw'', [''flaw''])])]"

definition record_of :: "string \<Rightarrow> string \<Rightarrow> entry" where
  "record_of qtype name = \<lparr>q_text = ''Question '' @ name, q_type = qtype, q_source = name\<rparr>"

definition nine_records :: "entry list" where
  "nine_records =
     [record_of ''Strengthen'' ''a1'', record_of ''Weaken'' ''b1'', record_of ''Flaw'' ''c1'',
      record_of ''Strengthen'' ''a2'', record_of ''Weaken'' ''b2'', record_of ''Flaw'' ''c2'',
      record_of ''Strengthen'' ''a3'', record_of ''Weaken'' ''b3'', record_of ''Flaw'' ''c3'']"

text \<open>File systems for the concrete instances. A document is represented by what \<open>json.load\<close>
  makes of it, so that \<open>json_load\<close> is the identity and \<open>json_dump\<close> is \<open>Inr\<close>: no bank file,
  and a bank file with malformed JSON.\<close>

definition absent_store :: "(py_error + entry list) filesystem" where
  "absent_store = Map.empty"

definition malformed_store :: "(py_error + entry list) filesystem" where
  "malformed_store = [BANK_FILE \<mapsto> Inl JSONDecodeError]"

section \<open>Classification: first match wins\<close>

lemma startswith_iff: "startswith s kw \<longleftrightarrow> (\<exists>q. s = kw @ q)"
  by (induction s kw rule: startswith.induct) auto

lemma str_in_iff: "str_in kw s \<longleftrightarrow> is_substring kw s"
proof (induction s)
  case Nil
  show ?case by (auto simp: is_substring_def)
next
  case (Cons c s)
  have "is_substring kw (c # s) \<longleftrightarrow> (\<exists>q. c # s = kw @ q) \<or> is_substring kw s"
    unfolding is_substring_def
  proof
    assume "\<exists>p q. c # s = p @ kw @ q"
    then obtain p q where pq: "c # s = p @ kw @ q" by blast
    show "(\<exists>q. c # s = kw @ q) \<or> (\<exists>p q. s = p @ kw @ q)"
    proof (cases p)
      case Nil
      with pq show ?thesis by auto
    next
      case (Cons a p')
      with pq have "s = p' @ kw @ q" by simp
      then show ?thesis by blast
    qed
  next
    assume "(\<exists>q. c # s = kw @ q) \<or> (\<exists>p q. s = p @ kw @ q)"
    then show "\<exists>p q. c # s = p @ kw @ q"
    proof
      assume "\<exists>q. c # s = kw @ q"
      then obtain q where "c # s = [] @ kw @ q" by auto
      then show ?thesis by blast
    next
      assume "\<exists>p q. s = p @ kw @ q"
      then obtain p q where "c # s = (c # p) @ kw @ q" by auto
      then show ?thesis by blast
    qed
  qed
  with Cons show ?case by (simp add: startswith_iff)
qed

lemma any_kw_iff: "any_kw keywords lc \<longleftrightarrow> (\<exists>kw \<in> set keywords. is_substring kw lc)"
  by (simp add: any_kw_def list_ex_iff str_in_iff)

lemma first_match_find:
  "first_match d lc =
     map_option fst (find (\<lambda>(qtype, keywords). \<exists>kw \<in> set keywords. is_substring kw lc) d)"
  by (induction d lc rule: first_match.induct) (simp_all add: any_kw_iff)


lemma find_append_opt:
  "find P (xs @ ys) = (case find P xs of None \<Rightarrow> find P ys | Some x \<Rightarrow> Some x)"
  by (induction xs) auto

lemma dict_get_LR: "dict_get QUESTION_TYPES ''LR'' = Inr LR_TYPES"
  by (simp add: QUESTION_TYPES_def)

lemma dict_get_RC: "dict_get QUESTION_TYPES ''RC'' = Inr RC_TYPES"
  by (simp add: QUESTION_TYPES_def)

lemma classify_question_unfold:
  "classify_question text =
     (case first_match LR_TYPES (lower text) of
        Some qtype \<Rightarrow> Inr qtype
      | None \<Rightarrow> (case first_match RC_TYPES (lower text) of
                   Some qtype \<Rightarrow> Inr qtype
                 | None \<Rightarrow> Inr ''Unknown''))"
  by (simp add: classify_question_def dict_get_LR dict_get_RC Let_def split: option.splits)

lemma classify_question_refines: "classify_question text = Inr (classify_spec text)"
  unfolding classify_question_unfold classify_spec_def first_match_find find_append_opt
  by (auto split: option.splits)

lemma first_match_None:
  "first_match d lc = None \<longleftrightarrow>
     (\<forall>(qtype, keywords) \<in> set d. \<forall>kw \<in> set keywords. \<not> is_substring kw lc)"
  by (induction d lc rule: first_match.induct) (auto simp: any_kw_iff)

lemma is_substring_set: "is_substring kw s \<Longrightarrow> set kw \<subseteq> set s"
  by (auto simp: is_substring_def)

lemma lower_space: "\<forall>c \<in> set s. isspace c \<Longrightarrow> lower s = s"
  unfolding lower_def
  by (induction s) (auto simp: lower_char_def isspace_def Let_def)

lemma space_no_kw:
  assumes "\<forall>c \<in> set s. isspace c" and "k \<in> set kw" and "\<not> isspace k"
  shows "\<not> is_substring kw s"
  using assms is_substring_set by blast

lemma first_match_space_gen:
  assumes "\<forall>c \<in> set s. isspace c"
    and "list_all (\<lambda>(qtype, keywords). list_all (list_ex (\<lambda>k. \<not> isspace k)) keywords) d"
  shows "first_match d s = None"
  unfolding first_match_None
proof (intro ballI, clarify)
  fix qtype kws kw
  assume "(qtype, kws) \<in> set d" and "kw \<in> set kws" and sub: "is_substring kw s"
  with assms(2) have "list_ex (\<lambda>k. \<not> isspace k) kw"
    by (auto simp: list_all_iff)
  then obtain k where "k \<in> set kw" and "\<not> isspace k"
    by (auto simp: list_ex_iff)
  with space_no_kw [OF assms(1)] sub show False by blast
qed

lemma keywords_not_blank:
  "list_all (\<lambda>(qtype, keywords). list_all (list_ex (\<lambda>k. \<not> isspace k)) keywords) LR_TYPES"
  "list_all (\<lambda>(qtype, keywords). list_all (list_ex (\<lambda>k. \<not> isspace k)) keywords) RC_TYPES"
  by code_simp+

lemma first_match_space:
  assumes "\<forall>c \<in> set s. isspace c"
  shows "first_match LR_TYPES s = None" and "first_match RC_TYPES s = None"
  using assms keywords_not_blank by (simp_all add: first_match_space_gen)

text \<open>
  Claim C1. For every text, \<open>classify_question\<close> returns the label of the first category,
  in the order LR then RC and in declared order within each, one of whose keywords is a
  substring of the lower-cased text, and \<open>Unknown\<close> if there is none. A text whose lower
  case contains \<open>strengthen\<close> is labelled \<open>Strengthen\<close> whatever else it contains, so also
  when it contains \<open>weaken\<close>. When no keyword of any category occurs the label is
  \<open>Unknown\<close>, in particular for the empty text and for a text of whitespace only.
\<close>

theorem classify_question_first_match:
  "classify_question text = Inr (classify_spec text)
   \<and> (is_substring ''strengthen'' (lower text) \<longrightarrow> classify_question text = Inr ''Strengthen'')
   \<and> ((\<forall>(qtype, keywords) \<in> set (LR_TYPES @ RC_TYPES).
          \<forall>kw \<in> set keywords. \<not> is_substring kw (lower text))
        \<longrightarrow> classify_question text = Inr ''Unknown'')
   \<and> ((\<forall>c \<in> set text. isspace c) \<longrightarrow> classify_question text = Inr ''Unknown'')"
proof (intro conjI impI)
  show "classify_question text = Inr (classify_spec text)"
    by (rule classify_question_refines)
next
  assume "is_substring ''strengthen'' (lower text)"
  then have "any_kw [''strengthen'', ''support''] (lower text)"
    by (simp add: any_kw_iff)
  then show "classify_question text = Inr ''Strengthen''"
    by (simp add: classify_question_unfold LR_TYPES_def)
next
  assume h: "\<forall>(qtype, keywords) \<in> set (LR_TYPES @ RC_TYPES).
          \<forall>kw \<in> set keywords. \<not> is_substring kw (lower text)"
  have "first_match LR_TYPES (lower text) = None"
    unfolding first_match_None using h by auto
  moreover have "first_match RC_TYPES (lower text) = None"
    unfolding first_match_None using h by auto
  ultimately show "classify_question text = Inr ''Unknown''"
    by (simp add: classify_question_unfold)
next
  assume h: "\<forall>c \<in> set text. isspace c"
  then have "lower text = text" by (rule lower_space)
  with first_match_space [OF h] show "classify_question text = Inr ''Unknown''"
    by (simp add: classify_question_unfold)
qed

text \<open>The theorem at a text with both keywords, at a blank text and at the empty text.\<close>

theorem classify_question_first_match_witness:
  "is_substring ''strengthen'' (lower sample_text)
   \<and> is_substring ''weaken'' (lower sample_text)
   \<and> classify_question sample_text = Inr ''Strengthen''
   \<and> classify_question sample_text = Inr (classify_spec sample_text)
   \<and> list_all isspace ''  '' \<and> classify_question ''  '' = Inr ''Unknown''
   \<and> classify_question [] = Inr ''Unknown''"
proof -
  have a: "is_substring ''strengthen'' (lower sample_text)"
    unfolding sample_text_def str_in_iff [symmetric] by code_simp
  have b: "is_substring ''weaken'' (lower sample_text)"
    unfolding sample_text_def str_in_iff [symmetric] by code_simp
  have c: "\<forall>c \<in> set ''  ''. isspace c" by (simp add: isspace_def)
  have d: "\<forall>c \<in> set []. isspace c" by simp
  have e: "classify_question sample_text = Inr ''Strengthen''"
    using a classify_question_first_match [of sample_text] by blast
  have f: "classify_question sample_text = Inr (classify_spec sample_text)"
    using classify_question_first_match [of sample_text] by blast
  have g: "classify_question ''  '' = Inr ''Unknown''"
    using c classify_question_first_match [of "''  ''"] by blast
  have h: "classify_question [] = Inr ''Unknown''"
    using d classify_question_first_match [of "[]"] by blast
  from a b c e f g h show ?thesis by (simp add: list_all_iff)
qed

section \<open>Sampling without replacement\<close>

lemma mset_remove_nth:
  assumes "j < length xs"
  shows "add_mset (xs ! j) (mset (take j xs @ drop (Suc j) xs)) = mset xs"
proof -
  have "xs = take j xs @ xs ! j # drop (Suc j) xs"
    using assms by (rule id_take_nth_drop)
  then have "mset xs = mset (take j xs @ xs ! j # drop (Suc j) xs)" by simp
  then show ?thesis by simp
qed

lemma draw_length: "k \<le> length pool \<Longrightarrow> length (fst (draw g pool k)) = k"
proof (induction k arbitrary: g pool)
  case 0
  show ?case by simp
next
  case (Suc k)
  then have ne: "pool \<noteq> []" by auto
  let ?j = "g 0 mod length pool"
  have "?j < length pool" using ne by simp
  then have "k \<le> length (take ?j pool @ drop (Suc ?j) pool)"
    using Suc.prems by (simp add: min_def)
  from Suc.IH [OF this] show ?case
    using ne by (simp add: randbelow_def split_beta)
qed

lemma draw_mset: "mset (fst (draw g pool k)) \<subseteq># mset pool"
proof (induction k arbitrary: g pool)
  case 0
  show ?case by simp
next
  case (Suc k)
  show ?case
  proof (cases "pool = []")
    case True
    then show ?thesis by simp
  next
    case False
    let ?j = "g 0 mod length pool"
    let ?rest = "take ?j pool @ drop (Suc ?j) pool"
    have j: "?j < length pool" using False by simp
    have "mset (fst (draw (\<lambda>i. g (Suc i)) ?rest k)) \<subseteq># mset ?rest" by (rule Suc.IH)
    then have "add_mset (pool ! ?j) (mset (fst (draw (\<lambda>i. g (Suc i)) ?rest k)))
                 \<subseteq># add_mset (pool ! ?j) (mset ?rest)"
      by simp
    also have "\<dots> = mset pool" using j by (rule mset_remove_nth)
    finally show ?thesis
      using False by (simp add: randbelow_def split_beta)
  qed
qed

lemma draw_all:
  assumes "length pool \<le> k"
  shows "mset (fst (draw g pool k)) = mset pool"
  using assms
proof (induction k arbitrary: g pool)
  case 0
  then show ?case by simp
next
  case (Suc k)
  show ?case
  proof (cases "pool = []")
    case True
    then show ?thesis by simp
  next
    case False
    let ?j = "g 0 mod length pool"
    let ?rest = "take ?j pool @ drop (Suc ?j) pool"
    have j: "?j < length pool" using False by simp
    have "length ?rest \<le> k" using Suc.prems j by (simp add: min_def)
    then have "mset (fst (draw (\<lambda>i. g (Suc i)) ?rest k)) = mset ?rest" by (rule Suc.IH)
    then have "add_mset (pool ! ?j) (mset (fst (draw (\<lambda>i. g (Suc i)) ?rest k))) = mset pool"
      using mset_remove_nth [OF j] by simp
    then show ?thesis
      using False by (simp add: randbelow_def split_beta)
  qed
qed

lemma random_sample_ok:
  assumes "0 \<le> k" and "k \<le> int (length population)"
  shows "\<exists>picked g'. random_sample g population k = Inr (picked, g')
           \<and> int (length picked) = k \<and> mset picked \<subseteq># mset population"
proof -
  have "nat k \<le> length population" using assms by simp
  then have "length (fst (draw g population (nat k))) = nat k" by (rule draw_length)
  moreover have "mset (fst (draw g population (nat k))) \<subseteq># mset population" by (rule draw_mset)
  ultimately show ?thesis
    using assms by (cases "draw g population (nat k)") (simp add: random_sample_def)
qed

lemma random_sample_Inr:
  assumes "random_sample g population k = Inr (picked, g')"
  shows "0 \<le> k \<and> int (length picked) = k \<and> mset picked \<subseteq># mset population"
proof -
  from assms have k: "0 \<le> k" "k \<le> int (length population)"
    by (auto simp: random_sample_def split: if_splits)
  from random_sample_ok [OF k, of g] assms show ?thesis using k by auto
qed

lemma random_shuffle_mset: "mset (fst (random_shuffle g xs)) = mset xs"
  by (simp add: random_shuffle_def draw_all)

lemma mset_sub_distinct:
  assumes "mset xs \<subseteq># mset ys" and "distinct ys"
  shows "distinct xs \<and> set xs \<subseteq> set ys"
proof
  have sub: "set xs \<subseteq> set ys"
    using set_mset_mono [OF assms(1)] by simp
  have "count (mset xs) a = (if a \<in> set xs then 1 else 0)" for a
  proof -
    have "count (mset xs) a \<le> count (mset ys) a"
      using assms(1) by (rule mset_subset_eq_count)
    also have "\<dots> \<le> 1"
      using assms(2) by (simp add: distinct_count_atmost_1)
    finally have le: "count (mset xs) a \<le> 1" .
    show ?thesis
    proof (cases "a \<in> set xs")
      case True
      then have "0 < count (mset xs) a" by (simp add: count_greater_zero_iff)
      with le have "count (mset xs) a = 1" by linarith
      with True show ?thesis by simp
    next
      case False
      then show ?thesis by (simp add: count_mset_0_iff)
    qed
  qed
  then show "distinct xs" by (simp add: distinct_count_atmost_1)
  show "set xs \<subseteq> set ys" by (rule sub)
qed

text \<open>Every selection of distinct elements of a pool of distinct elements is what some
  generator draws: the model leaves out no result of sampling without replacement.\<close>

lemma remove_nth_distinct:
  assumes "distinct pool" and "i < length pool"
  shows "distinct (take i pool @ drop (Suc i) pool)
         \<and> set (take i pool @ drop (Suc i) pool) = set pool - {pool ! i}"
proof -
  let ?rest = "take i pool @ drop (Suc i) pool"
  have eq: "pool = take i pool @ pool ! i # drop (Suc i) pool"
    using assms(2) by (rule id_take_nth_drop)
  have "distinct (take i pool @ pool ! i # drop (Suc i) pool)"
    using assms(1) eq by simp
  then have d: "distinct ?rest" and n: "pool ! i \<notin> set ?rest" by auto
  have "set pool = set (take i pool @ pool ! i # drop (Suc i) pool)"
    using eq by simp
  then have "set pool = insert (pool ! i) (set ?rest)" by simp
  with n have "set ?rest = set pool - {pool ! i}" by auto
  with d show ?thesis by simp
qed

lemma draw_any:
  assumes "distinct pool" and "distinct chosen" and "set chosen \<subseteq> set pool"
  shows "\<exists>g. fst (draw g pool (length chosen)) = chosen"
  using assms
proof (induction chosen arbitrary: pool)
  case Nil
  show ?case by simp
next
  case (Cons c cs)
  from Cons.prems(3) have "c \<in> set pool" by simp
  then obtain i where i: "i < length pool" "pool ! i = c"
    by (auto simp: in_set_conv_nth)
  let ?rest = "take i pool @ drop (Suc i) pool"
  from remove_nth_distinct [OF Cons.prems(1) i(1)] i(2)
  have d: "distinct ?rest" and s: "set ?rest = set pool - {c}" by simp_all
  from Cons.prems(2,3) s have "distinct cs" "set cs \<subseteq> set ?rest" by auto
  from Cons.IH [OF d this] obtain g' where g': "fst (draw g' ?rest (length cs)) = cs"
    by blast
  let ?g = "\<lambda>n. case n of 0 \<Rightarrow> i | Suc m \<Rightarrow> g' m"
  have ne: "pool \<noteq> []" using i(1) by auto
  have "randbelow ?g (length pool) = (i, g')"
    using i(1) by (simp add: randbelow_def)
  then have "fst (draw ?g pool (length (c # cs))) = c # cs"
    using ne i(2) g' by (simp add: split_beta)
  then show ?case by blast
qed

lemma random_sample_any:
  assumes "distinct pool" and "distinct chosen" and "set chosen \<subseteq> set pool"
  shows "\<exists>g g'. random_sample g pool (int (length chosen)) = Inr (chosen, g')"
proof -
  from draw_any [OF assms] obtain g where g: "fst (draw g pool (length chosen)) = chosen"
    by blast
  have "length chosen \<le> length pool"
    using assms by (metis card_mono distinct_card List.finite_set)
  then have "random_sample g pool (int (length chosen))
               = Inr (draw g pool (length chosen))"
    by (simp add: random_sample_def)
  with g have "random_sample g pool (int (length chosen))
                 = Inr (chosen, snd (draw g pool (length chosen)))"
    by (cases "draw g pool (length chosen)") simp
  then show ?thesis by blast
qed

section \<open>Allocation of a section's target\<close>

lemma dict_set_fresh: "k \<notin> set (keys d) \<Longrightarrow> dict_set k v d = d @ [(k, v)]"
  by (induction d) (auto simp: keys_def)

lemma dict_comprehension:
  "distinct types \<Longrightarrow> foldl (\<lambda>d t. dict_set t base d) [] types = map (\<lambda>t. (t, base)) types"
proof (induction types rule: rev_induct)
  case Nil
  show ?case by simp
next
  case (snoc t types)
  then have "t \<notin> set (keys (map (\<lambda>t. (t, base)) types))"
    by (auto simp: keys_def)
  with snoc show ?case by (simp add: dict_set_fresh)
qed

lemma dict_increment:
  assumes "distinct (keys d)" and "t \<in> set (keys d)"
  shows "\<exists>c. dict_get d t = Inr c
           \<and> dict_set t (c + 1) d = map (\<lambda>(k, v). (k, if k = t then v + 1 else v)) d"
  using assms
proof (induction d)
  case Nil
  then show ?case by (simp add: keys_def)
next
  case (Cons kv d)
  obtain k v where kv: "kv = (k, v)" by (cases kv)
  show ?case
  proof (cases "k = t")
    case True
    with Cons.prems kv have "t \<notin> fst ` set d" by (simp add: keys_def)
    then have "map (\<lambda>(k, v). (k, if k = t then v + 1 else v)) d = d"
      by (intro map_idI) (auto simp: image_iff)
    with True kv show ?thesis by simp
  next
    case False
    with Cons.prems kv have "distinct (keys d)" "t \<in> set (keys d)"
      by (auto simp: keys_def)
    from Cons.IH [OF this] False kv show ?thesis by auto
  qed
qed

lemma add_extras_map:
  assumes "distinct (keys counts)" and "distinct extra" and "set extra \<subseteq> set (keys counts)"
  shows "add_extras extra counts
           = Inr (map (\<lambda>(t, c). (t, if t \<in> set extra then c + 1 else c)) counts)"
  using assms
proof (induction extra arbitrary: counts)
  case Nil
  show ?case by simp
next
  case (Cons t ts)
  let ?counts' = "map (\<lambda>(k, v). (k, if k = t then v + 1 else v)) counts"
  from Cons.prems obtain c where c: "dict_get counts t = Inr c"
    "dict_set t (c + 1) counts = ?counts'"
    using dict_increment [of counts t] by auto
  have k: "keys ?counts' = keys counts"
    by (simp add: keys_def comp_def split_beta)
  have "add_extras ts ?counts'
          = Inr (map (\<lambda>(t, c). (t, if t \<in> set ts then c + 1 else c)) ?counts')"
    using Cons.prems by (intro Cons.IH) (simp_all add: k)
  also have "map (\<lambda>(t, c). (t, if t \<in> set ts then c + 1 else c)) ?counts'
               = map (\<lambda>(k, c). (k, if k \<in> set (t # ts) then c + 1 else c)) counts"
    using Cons.prems(2) by (auto simp: split_beta)
  finally show ?case using c by simp
qed

lemma sum_extras:
  assumes "distinct types" and "distinct extra" and "set extra \<subseteq> set types"
  shows "sum_list (map (\<lambda>t. base + (if t \<in> set extra then 1 else 0)) types)
           = int (length types) * base + int (length extra)"
proof -
  have "length (filter (\<lambda>t. t \<in> set extra) types) = card ({t. t \<in> set extra} \<inter> set types)"
    using assms(1) by (rule distinct_length_filter)
  also have "{t. t \<in> set extra} \<inter> set types = set extra" using assms(3) by auto
  also have "card (set extra) = length extra" using assms(2) by (rule distinct_card)
  finally have len: "length (filter (\<lambda>t. t \<in> set extra) types) = length extra" .
  have "sum_list (map (\<lambda>t. base + (if t \<in> set extra then 1 else 0)) ts)
          = int (length ts) * base + int (length (filter (\<lambda>t. t \<in> set extra) ts))" for ts
    by (induction ts) (simp_all add: algebra_simps)
  with len show ?thesis by simp
qed

lemma allocate_spec:
  assumes "types \<noteq> []" and "distinct types"
  shows "\<exists>extra counts g'.
           random_sample g types (total' mod int (length types)) = Inr (extra, g')
           \<and> distinct extra \<and> set extra \<subseteq> set types
           \<and> int (length extra) = total' mod int (length types)
           \<and> allocate g types total' = Inr (counts, g')
           \<and> counts = map (\<lambda>t. (t, total' div int (length types)
                                      + (if t \<in> set extra then 1 else 0))) types
           \<and> sum_list (map snd counts) = total'"
proof -
  let ?n = "int (length types)"
  let ?base = "total' div ?n"
  let ?rem = "total' mod ?n"
  have n: "0 < ?n" using assms(1) by simp
  then have rem: "0 \<le> ?rem" "?rem \<le> ?n" by (simp_all add: less_imp_le)
  from random_sample_ok [OF rem, of g] obtain extra g' where
    s: "random_sample g types ?rem = Inr (extra, g')" and
    len: "int (length extra) = ?rem" and sub: "mset extra \<subseteq># mset types"
    by blast
  from mset_sub_distinct [OF sub assms(2)] have d: "distinct extra" "set extra \<subseteq> set types"
    by simp_all
  let ?initial = "map (\<lambda>t. (t, ?base)) types"
  let ?counts = "map (\<lambda>t. (t, ?base + (if t \<in> set extra then 1 else 0))) types"
  have k0: "keys ?initial = types" by (simp add: keys_def comp_def)
  have "add_extras extra ?initial
          = Inr (map (\<lambda>(t, c). (t, if t \<in> set extra then c + 1 else c)) ?initial)"
    using assms(2) d by (intro add_extras_map) (simp_all add: k0)
  also have "map (\<lambda>(t, c). (t, if t \<in> set extra then c + 1 else c)) ?initial = ?counts"
    by simp
  finally have ae: "add_extras extra ?initial = Inr ?counts" .
  have alloc: "allocate g types total' = Inr (?counts, g')"
    using assms s ae by (simp add: allocate_def Let_def dict_comprehension)
  have "sum_list (map snd ?counts)
          = sum_list (map (\<lambda>t. ?base + (if t \<in> set extra then 1 else 0)) types)"
    by (simp add: comp_def)
  also have "\<dots> = ?n * ?base + int (length extra)"
    using assms(2) d by (rule sum_extras)
  also have "\<dots> = total'" using len by simp
  finally have "sum_list (map snd ?counts) = total'" .
  with s d len alloc show ?thesis by blast
qed

text \<open>
  Claim C2. For a section with a non-empty list of distinct categories, the allocation is
  \<open>base = total div n\<close> for every category, plus one for each category of
  \<open>random.sample(types, total mod n)\<close>: exactly \<open>total mod n\<close> distinct categories of the
  full list. The allocated counts sum to the target. Every choice of \<open>total mod n\<close>
  categories of the full list is the one some sequence of draws makes; with what
  probability the library's sampler makes it is outside the model.
\<close>

theorem allocate_sums_to_target:
  assumes "types \<noteq> []" and "distinct types"
  shows "(\<exists>extra counts g'.
            random_sample g types (total' mod int (length types)) = Inr (extra, g')
            \<and> distinct extra \<and> set extra \<subseteq> set types
            \<and> int (length extra) = total' mod int (length types)
            \<and> allocate g types total' = Inr (counts, g')
            \<and> counts = map (\<lambda>t. (t, total' div int (length types)
                                       + (if t \<in> set extra then 1 else 0))) types
            \<and> sum_list (map snd counts) = total')
         \<and> (\<forall>chosen. distinct chosen \<and> set chosen \<subseteq> set types
                \<and> int (length chosen) = total' mod int (length types) \<longrightarrow>
              (\<exists>g0 g'. allocate g0 types total'
                          = Inr (map (\<lambda>t. (t, total' div int (length types)
                                               + (if t \<in> set chosen then 1 else 0))) types,
                                 g')))"
proof (intro conjI allI impI)
  show "\<exists>extra counts g'.
            random_sample g types (total' mod int (length types)) = Inr (extra, g')
            \<and> distinct extra \<and> set extra \<subseteq> set types
            \<and> int (length extra) = total' mod int (length types)
            \<and> allocate g types total' = Inr (counts, g')
            \<and> counts = map (\<lambda>t. (t, total' div int (length types)
                                       + (if t \<in> set extra then 1 else 0))) types
            \<and> sum_list (map snd counts) = total'"
    using assms by (rule allocate_spec)
next
  fix chosen :: "string list"
  assume c: "distinct chosen \<and> set chosen \<subseteq> set types
                \<and> int (length chosen) = total' mod int (length types)"
  then have "\<exists>g0 g1. random_sample g0 types (int (length chosen)) = Inr (chosen, g1)"
    using assms(2) by (intro random_sample_any) simp_all
  then obtain g0 g1 where
    r: "random_sample g0 types (total' mod int (length types)) = Inr (chosen, g1)"
    using c by auto
  from allocate_spec [OF assms, of g0 total'] obtain extra counts g' where
    e: "random_sample g0 types (total' mod int (length types)) = Inr (extra, g')"
    and a: "allocate g0 types total' = Inr (counts, g')"
    and m: "counts = map (\<lambda>t. (t, total' div int (length types)
                                       + (if t \<in> set extra then 1 else 0))) types"
    by blast
  from r e have "extra = chosen" by simp
  with a m show "\<exists>g0 g'. allocate g0 types total'
                          = Inr (map (\<lambda>t. (t, total' div int (length types)
                                               + (if t \<in> set chosen then 1 else 0))) types,
                                 g')"
    by blast
qed

text \<open>The theorem at the nine LR categories and the default target 25: base 2, remainder 7.
  A generator that always draws 0 gives the extra slot to the first seven categories;
  some generator gives it to the last seven.\<close>

theorem allocate_sums_to_target_witness:
  "keys LR_TYPES \<noteq> [] \<and> distinct (keys LR_TYPES)
   \<and> (\<exists>counts g'. allocate (\<lambda>i. 0) (keys LR_TYPES) 25 = Inr (counts, g')
         \<and> map snd counts = [3, 3, 3, 3, 3, 3, 3, 2, 2]
         \<and> sum_list (map snd counts) = 25)
   \<and> distinct (drop 2 (keys LR_TYPES))
   \<and> set (drop 2 (keys LR_TYPES)) \<subseteq> set (keys LR_TYPES)
   \<and> int (length (drop 2 (keys LR_TYPES))) = 25 mod int (length (keys LR_TYPES))
   \<and> (\<exists>g0 g'. allocate g0 (keys LR_TYPES) 25
                 = Inr ([(''Strengthen'', 2), (''Weaken'', 2), (''Assumption'', 3), (''Flaw'', 3),
                         (''Inference'', 3), (''Principle'', 3), (''Parallel Reasoning'', 3),
                         (''Paradox'', 3), (''Method of Reasoning'', 3)], g'))"
proof -
  have k: "keys LR_TYPES = [''Strengthen'', ''Weaken'', ''Assumption'', ''Flaw'', ''Inference'',
      ''Principle'', ''Parallel Reasoning'', ''Paradox'', ''Method of Reasoning'']"
    by (simp add: keys_def LR_TYPES_def)
  have a: "keys LR_TYPES \<noteq> []" by (simp add: k)
  have b: "distinct (keys LR_TYPES)" by (simp add: k)
  note inst = allocate_sums_to_target [OF a b, of "\<lambda>i. 0" 25]
  from inst obtain extra counts g' where
    c: "allocate (\<lambda>i. 0) (keys LR_TYPES) 25 = Inr (counts, g')"
    and d: "sum_list (map snd counts) = 25" by blast
  have "map_sum id (\<lambda>r. map snd (fst r)) (allocate (\<lambda>i. 0) (keys LR_TYPES) 25)
          = Inr [3, 3, 3, 3, 3, 3, 3, 2, 2]"
    by code_simp
  with c have e: "map snd counts = [3, 3, 3, 3, 3, 3, 3, 2, 2]" by simp
  from c d e have first: "\<exists>counts g'. allocate (\<lambda>i. 0) (keys LR_TYPES) 25 = Inr (counts, g')
         \<and> map snd counts = [3, 3, 3, 3, 3, 3, 3, 2, 2]
         \<and> sum_list (map snd counts) = 25"
    by (intro exI [of _ counts] exI [of _ g'] conjI)
  have p: "distinct (drop 2 (keys LR_TYPES))" by (simp add: k)
  have q: "set (drop 2 (keys LR_TYPES)) \<subseteq> set (keys LR_TYPES)" by (rule set_drop_subset)
  have r: "int (length (drop 2 (keys LR_TYPES))) = 25 mod int (length (keys LR_TYPES))"
    by (simp add: k)
  from inst p q r have "\<exists>g0 g'. allocate g0 (keys LR_TYPES) 25
      = Inr (map (\<lambda>t. (t, 25 div int (length (keys LR_TYPES))
                           + (if t \<in> set (drop 2 (keys LR_TYPES)) then 1 else 0)))
               (keys LR_TYPES), g')"
    by blast
  then have second: "\<exists>g0 g'. allocate g0 (keys LR_TYPES) 25
                 = Inr ([(''Strengthen'', 2), (''Weaken'', 2), (''Assumption'', 3), (''Flaw'', 3),
                         (''Inference'', 3), (''Principle'', 3), (''Parallel Reasoning'', 3),
                         (''Paradox'', 3), (''Method of Reasoning'', 3)], g')"
    by (simp add: k)
  show ?thesis using a b first p q r second by (intro conjI) assumption+
qed

section \<open>Selection within a category\<close>

lemma select_category_shortage_case:
  assumes "int (available pool qtype) < cnt"
  shows "\<exists>picked g'.
           select_category g pool qtype cnt
             = Inr (picked, [shortage_warning qtype cnt (available pool qtype)], g')
           \<and> mset picked = mset (filter (\<lambda>q. q_type q = qtype) pool)"
proof -
  let ?cands = "filter (\<lambda>q. q_type q = qtype) pool"
  have m: "min cnt (int (length ?cands)) = int (length ?cands)"
    using assms by (simp add: available_def)
  obtain picked g' where d: "draw g ?cands (length ?cands) = (picked, g')"
    by (cases "draw g ?cands (length ?cands)")
  have "mset (fst (draw g ?cands (length ?cands))) = mset ?cands"
    by (rule draw_all) simp
  with d have "mset picked = mset ?cands" by simp
  moreover have "select_category g pool qtype cnt
      = Inr (picked, [shortage_warning qtype cnt (available pool qtype)], g')"
    using assms d by (simp add: select_category_def Let_def m random_sample_def available_def)
  ultimately show ?thesis by blast
qed

lemma select_category_enough_case:
  assumes "0 \<le> cnt" and "cnt \<le> int (available pool qtype)"
  shows "\<exists>picked g'.
           select_category g pool qtype cnt = Inr (picked, [], g')
           \<and> random_sample g (filter (\<lambda>q. q_type q = qtype) pool) cnt = Inr (picked, g')
           \<and> int (length picked) = cnt
           \<and> mset picked \<subseteq># mset (filter (\<lambda>q. q_type q = qtype) pool)"
proof -
  let ?cands = "filter (\<lambda>q. q_type q = qtype) pool"
  have le: "cnt \<le> int (length ?cands)" using assms(2) by (simp add: available_def)
  then have m: "min cnt (int (length ?cands)) = cnt" by simp
  from random_sample_ok [OF assms(1) le, of g] obtain picked g' where
    r: "random_sample g ?cands cnt = Inr (picked, g')" "int (length picked) = cnt"
       "mset picked \<subseteq># mset ?cands"
    by blast
  have "select_category g pool qtype cnt = Inr (picked, [], g')"
    using le r(1) by (simp add: select_category_def Let_def m)
  with r show ?thesis by blast
qed

lemma select_category_negative:
  assumes "cnt < 0"
  shows "select_category g pool qtype cnt = Inl ValueError"
  using assms by (simp add: select_category_def Let_def random_sample_def min_def)

lemma select_category_ok:
  assumes "0 \<le> cnt"
  shows "\<exists>picked g'.
           select_category g pool qtype cnt
             = Inr (picked, (if int (available pool qtype) < cnt
                       then [shortage_warning qtype cnt (available pool qtype)] else []), g')
           \<and> int (length picked) = min cnt (int (available pool qtype))
           \<and> mset picked \<subseteq># mset (filter (\<lambda>q. q_type q = qtype) pool)"
proof (cases "int (available pool qtype) < cnt")
  case True
  from select_category_shortage_case [OF True, of g] obtain picked g' where
    p: "select_category g pool qtype cnt
             = Inr (picked, [shortage_warning qtype cnt (available pool qtype)], g')"
       "mset picked = mset (filter (\<lambda>q. q_type q = qtype) pool)"
    by blast
  from p(2) have "length picked = available pool qtype"
    unfolding available_def by (rule mset_eq_length)
  with True p show ?thesis by auto
next
  case False
  then have "cnt \<le> int (available pool qtype)" by simp
  from select_category_enough_case [OF assms this, of g] False
  show ?thesis by auto
qed

lemma shortage_log_Cons:
  "shortage_log pool ((qtype, cnt) # rest)
     = (if int (available pool qtype) < cnt
                       then [shortage_warning qtype cnt (available pool qtype)] else []) @ shortage_log pool rest"
  by (simp add: shortage_log_def)

lemma taken_Cons:
  "taken pool ((qtype, cnt) # rest) = min cnt (int (available pool qtype)) + taken pool rest"
  by (simp add: taken_def)

lemma category_loop_ok:
  assumes "list_all (\<lambda>(qtype, cnt). 0 \<le> cnt) counts"
  shows "\<exists>selected g'.
           category_loop g pool counts = Inr (selected, shortage_log pool counts, g')
           \<and> int (length selected) = taken pool counts"
  using assms
proof (induction counts arbitrary: g)
  case Nil
  show ?case by (simp add: shortage_log_def taken_def)
next
  case (Cons kv rest)
  obtain qtype cnt where kv: "kv = (qtype, cnt)" by (cases kv)
  with Cons.prems have c: "0 \<le> cnt" and r: "list_all (\<lambda>(qtype, cnt). 0 \<le> cnt) rest"
    by simp_all
  from select_category_ok [OF c, of g pool qtype] obtain picked g1 where
    p: "select_category g pool qtype cnt
          = Inr (picked, (if int (available pool qtype) < cnt
                       then [shortage_warning qtype cnt (available pool qtype)] else []), g1)"
       "int (length picked) = min cnt (int (available pool qtype))"
    by blast
  from Cons.IH [OF r, of g1] obtain selected g2 where
    s: "category_loop g1 pool rest = Inr (selected, shortage_log pool rest, g2)"
       "int (length selected) = taken pool rest"
    by blast
  have "category_loop g pool (kv # rest)
          = Inr (picked @ selected, shortage_log pool (kv # rest), g2)"
    using p(1) s(1) kv by (simp add: shortage_log_Cons)
  moreover have "int (length (picked @ selected)) = taken pool (kv # rest)"
    using p(2) s(2) kv by (simp add: taken_Cons)
  ultimately show ?case by blast
qed

lemma category_loop_Inr_nonneg:
  assumes "category_loop g pool counts = Inr r"
  shows "list_all (\<lambda>(qtype, cnt). 0 \<le> cnt) counts"
  using assms
proof (induction counts arbitrary: g r)
  case Nil
  show ?case by simp
next
  case (Cons kv rest)
  obtain qtype cnt where kv: "kv = (qtype, cnt)" by (cases kv)
  have c: "0 \<le> cnt"
  proof (rule ccontr)
    assume "\<not> 0 \<le> cnt"
    then have "select_category g pool qtype cnt = Inl ValueError"
      by (simp add: select_category_negative)
    with Cons.prems kv show False by simp
  qed
  from Cons.prems kv obtain picked w g1 r' where
    "select_category g pool qtype cnt = Inr (picked, w, g1)"
    "category_loop g1 pool rest = Inr r'"
    by (auto split: sum.splits)
  from Cons.IH [OF this(2)] c kv show ?case by simp
qed




section \<open>A section never exceeds its target\<close>

lemma taken_le_sum:
  "taken pool counts \<le> sum_list (map snd counts)"
  unfolding taken_def
  by (induction counts) (auto simp: split_beta)

lemma no_shortage_taken:
  assumes "shortage_log pool counts = []"
  shows "taken pool counts = sum_list (map snd counts)"
  using assms unfolding taken_def shortage_log_def
  by (induction counts) (auto simp: split_beta split: if_splits)

lemma allocate_counts:
  assumes "types \<noteq> []" and "distinct types"
  shows "\<exists>counts g'. allocate g types total' = Inr (counts, g')
           \<and> keys counts = types
           \<and> sum_list (map snd counts) = total'
           \<and> list_all (\<lambda>(qtype, cnt). total' div int (length types) \<le> cnt) counts"
proof -
  from allocate_spec [OF assms, of g total'] obtain extra counts g' where
    a: "allocate g types total' = Inr (counts, g')"
    and c: "counts = map (\<lambda>t. (t, total' div int (length types)
                                      + (if t \<in> set extra then 1 else 0))) types"
    and s: "sum_list (map snd counts) = total'"
    by blast
  from c have "keys counts = types" by (simp add: keys_def comp_def)
  moreover from c have "list_all (\<lambda>(qtype, cnt). total' div int (length types) \<le> cnt) counts"
    by (simp add: list_all_iff)
  ultimately show ?thesis using a s by blast
qed

lemma select_section_unfold:
  assumes "dict_get qt section = Inr categories"
    and "allocate g (keys categories) total' = Inr (counts, g1)"
  shows "select_section qt bank g section total'
           = category_loop g1 (eligible (keys categories) bank) counts"
  using assms by (simp add: select_section_def Let_def)


lemma shortage_log_empty:
  "shortage_log pool counts = []
     \<longleftrightarrow> \<not> list_ex (\<lambda>(qtype, cnt). int (available pool qtype) < cnt) counts"
  unfolding shortage_log_def
  by (induction counts) (auto simp: split_beta)

lemma known_sectionE:
  assumes "known_section qt section"
  obtains categories where "dict_get qt section = Inr categories" and "categories \<noteq> []"
    and "distinct (keys categories)"
  using assms unfolding known_section_def by (auto split: sum.splits)

lemma select_section_ok:
  assumes "dict_get qt section = Inr categories" and "categories \<noteq> []"
    and "distinct (keys categories)" and "0 \<le> total'"
  shows "\<exists>picked warnings g'.
           select_section qt bank g section total' = Inr (picked, warnings, g')
           \<and> int (length picked) \<le> total'"
proof -
  let ?types = "keys categories"
  have ne: "?types \<noteq> []" using assms(2) by (simp add: keys_def)
  from allocate_counts [OF ne assms(3), of g total'] obtain counts g1 where
    a: "allocate g ?types total' = Inr (counts, g1)"
    and s: "sum_list (map snd counts) = total'"
    and b: "list_all (\<lambda>(qtype, cnt). total' div int (length ?types) \<le> cnt) counts"
    by blast
  have "0 \<le> total' div int (length ?types)"
    using assms(4) ne by (simp add: pos_imp_zdiv_nonneg_iff)
  with b have nn: "list_all (\<lambda>(qtype, cnt). 0 \<le> cnt) counts"
    by (auto simp: list_all_iff)
  from category_loop_ok [OF nn, of g1 "eligible ?types bank"] obtain selected g' where
    c: "category_loop g1 (eligible ?types bank) counts
          = Inr (selected, shortage_log (eligible ?types bank) counts, g')"
    and l: "int (length selected) = taken (eligible ?types bank) counts"
    by blast
  have "int (length selected) \<le> total'"
    using l s taken_le_sum [of "eligible ?types bank" counts] by simp
  with c select_section_unfold [OF assms(1) a, of bank] show ?thesis by simp
qed

lemma select_section_Inr:
  assumes "dict_get qt section = Inr categories" and "categories \<noteq> []"
    and "distinct (keys categories)"
    and "select_section qt bank g section total' = Inr (picked, warnings, g')"
  shows "int (length picked) \<le> total'
         \<and> (int (length picked) < total' \<longrightarrow>
              warnings \<noteq> []
              \<and> (\<exists>counts g1. allocate g (keys categories) total' = Inr (counts, g1)
                    \<and> list_ex (\<lambda>(qtype, cnt).
                          int (available (eligible (keys categories) bank) qtype) < cnt) counts))"
proof -
  let ?types = "keys categories"
  let ?pool = "eligible ?types bank"
  have ne: "?types \<noteq> []" using assms(2) by (simp add: keys_def)
  from allocate_counts [OF ne assms(3), of g total'] obtain counts g1 where
    a: "allocate g ?types total' = Inr (counts, g1)"
    and s: "sum_list (map snd counts) = total'"
    by blast
  from assms(4) select_section_unfold [OF assms(1) a, of bank]
  have cl: "category_loop g1 ?pool counts = Inr (picked, warnings, g')" by simp
  then have nn: "list_all (\<lambda>(qtype, cnt). 0 \<le> cnt) counts"
    by (rule category_loop_Inr_nonneg)
  from category_loop_ok [OF nn, of g1 ?pool] cl
  have w: "warnings = shortage_log ?pool counts"
    and l: "int (length picked) = taken ?pool counts"
    by auto
  have le: "int (length picked) \<le> total'"
    using l s taken_le_sum [of ?pool counts] by simp
  have "warnings \<noteq> []" if "int (length picked) < total'"
  proof
    assume "warnings = []"
    with w have "taken ?pool counts = sum_list (map snd counts)"
      by (simp add: no_shortage_taken)
    with l s that show False by simp
  qed
  moreover have "list_ex (\<lambda>(qtype, cnt). int (available ?pool qtype) < cnt) counts"
    if "warnings \<noteq> []"
    using that w shortage_log_empty [of ?pool counts] by simp
  ultimately show ?thesis using le a by blast
qed

lemma section_loop_ok:
  assumes "list_all (\<lambda>(section, total'). known_section qt section \<and> 0 \<le> total') struct"
  shows "\<exists>selected logged g'.
           section_loop qt bank g struct = Inr (selected, logged, g')
           \<and> int (length selected) \<le> sum_list (map snd struct)"
  using assms
proof (induction struct arbitrary: g)
  case Nil
  show ?case by simp
next
  case (Cons st rest)
  obtain sec tot where st: "st = (sec, tot)" by (cases st)
  with Cons.prems have k: "known_section qt sec" and t: "0 \<le> tot"
    and r: "list_all (\<lambda>(section, total'). known_section qt section \<and> 0 \<le> total') rest"
    by simp_all
  from k obtain categories where c: "dict_get qt sec = Inr categories"
    "categories \<noteq> []" "distinct (keys categories)"
    by (rule known_sectionE)
  from select_section_ok [OF c t, of bank g] obtain picked warnings g1 where
    p: "select_section qt bank g sec tot = Inr (picked, warnings, g1)"
       "int (length picked) \<le> tot"
    by blast
  from Cons.IH [OF r, of g1] obtain selected logged g2 where
    s: "section_loop qt bank g1 rest = Inr (selected, logged, g2)"
       "int (length selected) \<le> sum_list (map snd rest)"
    by blast
  have "section_loop qt bank g (st # rest) = Inr (picked @ selected, warnings @ logged, g2)"
    using p(1) s(1) st by simp
  moreover have "int (length (picked @ selected)) \<le> sum_list (map snd (st # rest))"
    using p(2) s(2) st by simp
  ultimately show ?case by blast
qed

lemma random_shuffle_length: "length (fst (random_shuffle g xs)) = length xs"
  using random_shuffle_mset [of g xs] by (rule mset_eq_length)

lemma compose_ok:
  assumes "list_all (\<lambda>(section, total'). known_section qt section \<and> 0 \<le> total') struct"
  shows "\<exists>exam logged g'.
           compose qt bank g struct = Inr (exam, logged, g')
           \<and> int (length exam) \<le> sum_list (map snd struct)"
proof -
  from section_loop_ok [OF assms, of bank g] obtain selected logged g1 where
    s: "section_loop qt bank g struct = Inr (selected, logged, g1)"
       "int (length selected) \<le> sum_list (map snd struct)"
    by blast
  obtain shuffled g2 where sh: "random_shuffle g1 selected = (shuffled, g2)"
    by (cases "random_shuffle g1 selected")
  with random_shuffle_length [of g1 selected] have "length shuffled = length selected" by simp
  with s sh show ?thesis by (simp add: compose_def)
qed

lemma generate_exam_text_ok:
  assumes "list_all (\<lambda>(section, total'). known_section qt section \<and> 0 \<le> total') struct"
  shows "\<exists>output logged g'. generate_exam_text qt bank g struct = Inr (output, logged, g')"
proof -
  from compose_ok [OF assms, of bank g] obtain exam logged g' where
    "compose qt bank g struct = Inr (exam, logged, g')" by blast
  then show ?thesis by (simp add: generate_exam_text_def)
qed


text \<open>
  Claim C4. For a section of the taxonomy with a non-empty dict of categories, whatever the
  bank and the target: if the selection of the section returns, the number of records it
  selected is at most the target, and it is less only when a warning was logged because
  some category has fewer candidates than its allocated count; and for a target that is
  not negative it always returns. For a structure of such sections with targets that are
  not negative, composition and the rendering of the exam return, however few records the
  bank holds, and the exam is no longer than the sum of the targets.
\<close>

theorem selection_within_target:
  "(known_section qt section \<longrightarrow>
      (\<forall>picked warnings g'.
          select_section qt bank g section total' = Inr (picked, warnings, g') \<longrightarrow>
            int (length picked) \<le> total'
            \<and> (int (length picked) < total' \<longrightarrow>
                 warnings \<noteq> []
                 \<and> (\<exists>categories counts g1.
                       dict_get qt section = Inr categories
                       \<and> allocate g (keys categories) total' = Inr (counts, g1)
                       \<and> list_ex (\<lambda>(qtype, cnt).
                             int (available (eligible (keys categories) bank) qtype) < cnt)
                           counts)))
      \<and> (0 \<le> total' \<longrightarrow>
           (\<exists>picked warnings g'.
              select_section qt bank g section total' = Inr (picked, warnings, g'))))
   \<and> (list_all (\<lambda>(section, total'). known_section qt section \<and> 0 \<le> total') structure \<longrightarrow>
        (\<exists>exam logged g'.
           compose qt bank g structure = Inr (exam, logged, g')
           \<and> int (length exam) \<le> sum_list (map snd structure))
        \<and> (\<exists>output logged g'.
              generate_exam_text qt bank g structure = Inr (output, logged, g')))"
proof (intro conjI impI allI)
  fix picked warnings g'
  assume k: "known_section qt section"
    and r: "select_section qt bank g section total' = Inr (picked, warnings, g')"
  from k obtain categories where c: "dict_get qt section = Inr categories"
    "categories \<noteq> []" "distinct (keys categories)"
    by (rule known_sectionE)
  note * = select_section_Inr [OF c r]
  from * show "int (length picked) \<le> total'" by simp
  {
    assume "int (length picked) < total'"
    with * c(1) show "warnings \<noteq> []" by simp
  }
  {
    assume "int (length picked) < total'"
    with * c(1) show "\<exists>categories counts g1.
                       dict_get qt section = Inr categories
                       \<and> allocate g (keys categories) total' = Inr (counts, g1)
                       \<and> list_ex (\<lambda>(qtype, cnt).
                             int (available (eligible (keys categories) bank) qtype) < cnt)
                           counts"
      by blast
  }
next
  assume k: "known_section qt section" and t: "0 \<le> total'"
  from k obtain categories where c: "dict_get qt section = Inr categories"
    "categories \<noteq> []" "distinct (keys categories)"
    by (rule known_sectionE)
  from select_section_ok [OF c t, of bank g]
  show "\<exists>picked warnings g'.
          select_section qt bank g section total' = Inr (picked, warnings, g')"
    by blast
next
  assume "list_all (\<lambda>(section, total'). known_section qt section \<and> 0 \<le> total') structure"
  then show "\<exists>exam logged g'.
           compose qt bank g structure = Inr (exam, logged, g')
           \<and> int (length exam) \<le> sum_list (map snd structure)"
    by (rule compose_ok)
next
  assume "list_all (\<lambda>(section, total'). known_section qt section \<and> 0 \<le> total') structure"
  then show "\<exists>output logged g'.
              generate_exam_text qt bank g structure = Inr (output, logged, g')"
    by (rule generate_exam_text_ok)
qed

text \<open>The theorem at the program's taxonomy and default structure, with a bank of nine LR
  records, three each of three categories: the LR section selects 9 of its 25, with the
  warnings of the six categories that are short.\<close>

theorem selection_within_target_witness:
  "known_section QUESTION_TYPES ''LR''
   \<and> (\<exists>picked warnings g'.
         select_section QUESTION_TYPES nine_records (\<lambda>i. 0) ''LR'' 25
           = Inr (picked, warnings, g')
         \<and> length picked = 9 \<and> length warnings = 6
         \<and> int (length picked) \<le> 25 \<and> warnings \<noteq> [])
   \<and> list_all (\<lambda>(section, total'). known_section QUESTION_TYPES section \<and> 0 \<le> total')
        DEFAULT_STRUCTURE
   \<and> (\<exists>exam logged g'.
         compose QUESTION_TYPES nine_records (\<lambda>i. 0) DEFAULT_STRUCTURE = Inr (exam, logged, g')
         \<and> int (length exam) \<le> sum_list (map snd DEFAULT_STRUCTURE))
   \<and> (\<exists>output logged g'.
         generate_exam_text QUESTION_TYPES nine_records (\<lambda>i. 0) DEFAULT_STRUCTURE
           = Inr (output, logged, g'))"
proof -
  have k: "known_section QUESTION_TYPES ''LR''"
    by (simp add: known_section_def QUESTION_TYPES_def LR_TYPES_def keys_def)
  have ks: "list_all (\<lambda>(section, total'). known_section QUESTION_TYPES section \<and> 0 \<le> total')
              DEFAULT_STRUCTURE"
    by (simp add: known_section_def QUESTION_TYPES_def LR_TYPES_def RC_TYPES_def keys_def
        DEFAULT_STRUCTURE_def)
  note inst = selection_within_target [of QUESTION_TYPES "''LR''" nine_records "\<lambda>i. 0" 25
      DEFAULT_STRUCTURE]
  from inst k obtain picked warnings g' where
    r: "select_section QUESTION_TYPES nine_records (\<lambda>i. 0) ''LR'' 25
          = Inr (picked, warnings, g')"
    by auto
  have "map_sum id (\<lambda>r. (length (fst r), length (fst (snd r))))
         (select_section QUESTION_TYPES nine_records (\<lambda>i. 0) ''LR'' 25) = Inr (9, 6)"
    by code_simp
  with r have l: "length picked = 9" "length warnings = 6" by simp_all
  from inst k r have le: "int (length picked) \<le> 25" by blast
  from l have ne: "warnings \<noteq> []" by auto
  have first: "\<exists>picked warnings g'.
         select_section QUESTION_TYPES nine_records (\<lambda>i. 0) ''LR'' 25
           = Inr (picked, warnings, g')
         \<and> length picked = 9 \<and> length warnings = 6
         \<and> int (length picked) \<le> 25 \<and> warnings \<noteq> []"
    using r l le ne by blast
  from inst ks have second: "\<exists>exam logged g'.
         compose QUESTION_TYPES nine_records (\<lambda>i. 0) DEFAULT_STRUCTURE = Inr (exam, logged, g')
         \<and> int (length exam) \<le> sum_list (map snd DEFAULT_STRUCTURE)"
    by blast
  from inst ks have third: "\<exists>output logged g'.
         generate_exam_text QUESTION_TYPES nine_records (\<lambda>i. 0) DEFAULT_STRUCTURE
           = Inr (output, logged, g')"
    by blast
  show ?thesis
    using k first ks second third by (intro conjI) assumption+
qed

section \<open>Composition by category\<close>

lemma available_append: "available (xs @ ys) t = available xs t + available ys t"
  by (simp add: available_def)

lemma available_mset: "mset xs = mset ys \<Longrightarrow> available xs t = available ys t"
proof -
  assume "mset xs = mset ys"
  then have "mset (filter (\<lambda>q. q_type q = t) xs) = mset (filter (\<lambda>q. q_type q = t) ys)"
    by simp
  then show ?thesis unfolding available_def by (rule mset_eq_length)
qed

lemma available_eligible:
  "t \<in> set types \<Longrightarrow> available (eligible types bank) t = available bank t"
proof -
  assume "t \<in> set types"
  then have "filter (\<lambda>q. q_type q = t) (filter (\<lambda>q. q_type q \<in> set types) bank)
               = filter (\<lambda>q. q_type q = t) bank"
    by (induction bank) auto
  then show ?thesis by (simp add: available_def eligible_def)
qed

lemma available_same_type:
  assumes "\<forall>q \<in> set xs. q_type q = qtype"
  shows "available xs t = (if t = qtype then length xs else 0)"
  using assms unfolding available_def by (induction xs) auto

lemma select_category_picks:
  assumes "select_category g pool qtype cnt = Inr (picked, warnings, g')"
  shows "(\<forall>q \<in> set picked. q_type q = qtype \<and> q \<in> set pool)
         \<and> int (length picked) = min cnt (int (available pool qtype))"
proof -
  have c: "0 \<le> cnt"
  proof (rule ccontr)
    assume "\<not> 0 \<le> cnt"
    then have "select_category g pool qtype cnt = Inl ValueError"
      by (simp add: select_category_negative)
    with assms show False by simp
  qed
  from select_category_ok [OF c, of g pool qtype] assms
  have l: "int (length picked) = min cnt (int (available pool qtype))"
    and m: "mset picked \<subseteq># mset (filter (\<lambda>q. q_type q = qtype) pool)"
    by auto
  from set_mset_mono [OF m] have "set picked \<subseteq> set (filter (\<lambda>q. q_type q = qtype) pool)"
    by simp
  with l show ?thesis by auto
qed

lemma category_loop_types:
  assumes "category_loop g pool counts = Inr (selected, logged, g')"
    and "distinct (keys counts)"
  shows "list_all (\<lambda>(qtype, cnt). int (available selected qtype)
                                    = min cnt (int (available pool qtype))) counts
         \<and> (\<forall>q \<in> set selected. q_type q \<in> set (keys counts) \<and> q \<in> set pool)"
  using assms
proof (induction counts arbitrary: g selected logged g')
  case Nil
  then show ?case by simp
next
  case (Cons kv rest)
  obtain qtype cnt where kv: "kv = (qtype, cnt)" by (cases kv)
  from Cons.prems(1) kv obtain picked w g1 sel lg where
    p: "select_category g pool qtype cnt = Inr (picked, w, g1)"
    and r: "category_loop g1 pool rest = Inr (sel, lg, g')"
    and s: "selected = picked @ sel"
    by (auto split: sum.splits)
  from Cons.prems(2) kv have d: "distinct (keys rest)" and nk: "qtype \<notin> set (keys rest)"
    by (simp_all add: keys_def)
  from select_category_picks [OF p] have
    pt: "\<forall>q \<in> set picked. q_type q = qtype \<and> q \<in> set pool"
    and pl: "int (length picked) = min cnt (int (available pool qtype))"
    by simp_all
  from Cons.IH [OF r d] have
    ih: "list_all (\<lambda>(qtype, cnt). int (available sel qtype)
                                    = min cnt (int (available pool qtype))) rest"
    and st: "\<forall>q \<in> set sel. q_type q \<in> set (keys rest) \<and> q \<in> set pool"
    by simp_all
  have ap: "available picked t = (if t = qtype then length picked else 0)" for t
    using pt by (intro available_same_type) simp
  have "available sel qtype = 0"
    using st nk unfolding available_def by (auto simp: filter_empty_conv)
  then have head: "int (available selected qtype) = min cnt (int (available pool qtype))"
    using s ap pl by (simp add: available_append)
  have tail: "list_all (\<lambda>(qtype, cnt). int (available selected qtype)
                                    = min cnt (int (available pool qtype))) rest"
    unfolding list_all_iff
  proof (intro ballI, clarify)
    fix t c
    assume tc: "(t, c) \<in> set rest"
    then have "t \<in> set (keys rest)" by (force simp: keys_def)
    with nk have "t \<noteq> qtype" by auto
    then have "available selected t = available sel t"
      using s ap by (simp add: available_append)
    with ih tc show "int (available selected t) = min c (int (available pool t))"
      by (auto simp: list_all_iff)
  qed
  have mem: "\<forall>q \<in> set selected. q_type q \<in> set (keys (kv # rest)) \<and> q \<in> set pool"
    using s pt st kv by (auto simp: keys_def)
  from head tail mem kv show ?case by simp
qed


lemma allocate_even:
  assumes "types \<noteq> []" and "distinct types" and "total' mod int (length types) = 0"
  shows "\<exists>g'. allocate g types total'
                 = Inr (map (\<lambda>t. (t, total' div int (length types))) types, g')"
proof -
  from allocate_spec [OF assms(1,2), of g total'] obtain extra counts g' where
    a: "allocate g types total' = Inr (counts, g')"
    and l: "int (length extra) = total' mod int (length types)"
    and c: "counts = map (\<lambda>t. (t, total' div int (length types)
                                      + (if t \<in> set extra then 1 else 0))) types"
    by blast
  from l assms(3) have "extra = []" by simp
  with c have "counts = map (\<lambda>t. (t, total' div int (length types))) types" by simp
  with a show ?thesis by blast
qed

text \<open>A target that is \<open>k\<close> times the number of categories, with at least \<open>k\<close> records of
  each category in the bank: \<open>k\<close> questions of each category and no shortage.\<close>

lemma compose_even:
  assumes "dict_get qt section = Inr categories"
    and "categories \<noteq> []"
    and "distinct (keys categories)"
    and "\<forall>t \<in> set (keys categories). k \<le> available bank t"
  shows "\<exists>exam g'.
           compose qt bank g [(section, int (length categories * k))] = Inr (exam, [], g')
           \<and> length exam = length categories * k
           \<and> (\<forall>t \<in> set (keys categories). available exam t = k)
           \<and> (\<forall>q \<in> set exam. q_type q \<in> set (keys categories))"
proof -
  let ?types = "keys categories"
  let ?pool = "eligible ?types bank"
  let ?counts = "map (\<lambda>t. (t, int k)) ?types"
  let ?total = "int (length categories * k)"
  have len: "length ?types = length categories" by (simp add: keys_def)
  have ne: "?types \<noteq> []" using assms(2) by (simp add: keys_def)
  have "\<exists>g'. allocate g ?types ?total
                = Inr (map (\<lambda>t. (t, ?total div int (length ?types))) ?types, g')"
    using ne assms(3) by (rule allocate_even) (simp add: len)
  moreover have "?total div int (length ?types) = int k"
    using assms(2) by (simp add: len)
  ultimately obtain g1 where a: "allocate g ?types ?total = Inr (?counts, g1)"
    by auto
  have kc: "keys ?counts = ?types" by (simp add: keys_def comp_def)
  have av: "k \<le> available ?pool t" if "t \<in> set ?types" for t
    using that assms(4) by (simp add: available_eligible)
  have nn: "list_all (\<lambda>(qtype, cnt). 0 \<le> cnt) ?counts" by (simp add: list_all_iff)
  from category_loop_ok [OF nn, of g1 ?pool] obtain selected g2 where
    c: "category_loop g1 ?pool ?counts = Inr (selected, shortage_log ?pool ?counts, g2)"
    and l: "int (length selected) = taken ?pool ?counts"
    by blast
  have nolog: "shortage_log ?pool ?counts = []"
    unfolding shortage_log_empty list_ex_iff
  proof
    assume "\<exists>x \<in> set ?counts. case x of (qtype, cnt) \<Rightarrow> int (available ?pool qtype) < cnt"
    then obtain t where "t \<in> set ?types" and "available ?pool t < k" by auto
    with av [of t] show False by simp
  qed
  then have "taken ?pool ?counts = sum_list (map snd ?counts)" by (rule no_shortage_taken)
  also have "\<dots> = ?total" using len by (simp add: comp_def sum_list_triv)
  finally have "int (length selected) = int (length categories * k)" using l by simp
  then have all: "length selected = length categories * k" by (simp only: of_nat_eq_iff)
  from category_loop_types [OF c] assms(3) kc have
    t: "list_all (\<lambda>(qtype, cnt). int (available selected qtype)
                                    = min cnt (int (available ?pool qtype))) ?counts"
    and m: "\<forall>q \<in> set selected. q_type q \<in> set ?types"
    by simp_all
  have each: "available selected t = k" if "t \<in> set ?types" for t
  proof -
    from t that have "int (available selected t) = min (int k) (int (available ?pool t))"
      by (auto simp: list_all_iff)
    with av [OF that] show ?thesis by simp
  qed
  have sec: "select_section qt bank g section ?total = Inr (selected, [], g2)"
    using select_section_unfold [OF assms(1) a, of bank] c nolog by simp
  obtain exam g3 where sh: "random_shuffle g2 selected = (exam, g3)"
    by (cases "random_shuffle g2 selected")
  with random_shuffle_mset [of g2 selected] have ms: "mset exam = mset selected" by simp
  then have "length exam = length categories * k" using all mset_eq_length by fastforce
  moreover have "\<forall>t \<in> set ?types. available exam t = k"
    using each available_mset [OF ms] by simp
  moreover have "\<forall>q \<in> set exam. q_type q \<in> set ?types"
    using m mset_eq_setD [OF ms] by simp
  moreover have "compose qt bank g [(section, ?total)] = Inr (exam, [], g3)"
    using sec sh by (simp add: compose_def)
  ultimately show ?thesis by blast
qed

text \<open>The program's own LR section has nine categories: there \<open>{LR: 9}\<close> gives base 1, and
  with at least one record of each category the exam has one question of each.\<close>

lemma compose_nine_of_nine:
  assumes "\<forall>t \<in> set (keys LR_TYPES). 1 \<le> available bank t"
  shows "\<exists>exam g'.
           compose QUESTION_TYPES bank g [(''LR'', 9)] = Inr (exam, [], g')
           \<and> length exam = 9
           \<and> (\<forall>t \<in> set (keys LR_TYPES). available exam t = 1)"
proof -
  have d: "distinct (keys LR_TYPES)" by (simp add: keys_def LR_TYPES_def)
  have n: "LR_TYPES \<noteq> []" by (simp add: LR_TYPES_def)
  have l: "length LR_TYPES = 9" by (simp add: LR_TYPES_def)
  from compose_even [OF dict_get_LR n d assms, of g] l show ?thesis by auto
qed

text \<open>
  Claim C6. Take any taxonomy whose LR section has three categories and any bank with at
  least three records of each of them. For the structure \<open>{LR: 9}\<close> the composed exam has
  exactly nine questions, all of LR categories, exactly three of each category (base 3,
  remainder 0), and no shortage is logged. The taxonomy is the global that
  \<open>generate_exam_text\<close> reads, here a parameter.
\<close>

theorem compose_nine_of_three:
  assumes "dict_get qt ''LR'' = Inr categories"
    and "length categories = 3"
    and "distinct (keys categories)"
    and "\<forall>t \<in> set (keys categories). 3 \<le> available bank t"
  shows "\<exists>exam g'.
           compose qt bank g [(''LR'', 9)] = Inr (exam, [], g')
           \<and> length exam = 9
           \<and> (\<forall>t \<in> set (keys categories). available exam t = 3)
           \<and> (\<forall>q \<in> set exam. q_type q \<in> set (keys categories))"
proof -
  have n: "categories \<noteq> []" using assms(2) by auto
  from compose_even [OF assms(1) n assms(3,4), of g] assms(2) show ?thesis by simp
qed

text \<open>The theorem at a taxonomy of three LR categories and a bank of three records each.\<close>

theorem compose_nine_of_three_witness:
  "dict_get three_categories ''LR''
     = Inr [(''Strengthen'', [''strengthen'']), (''Weaken'', [''weaken'']), (''Flaw'', [''flaw''])]
   \<and> available nine_records ''Strengthen'' = 3
   \<and> available nine_records ''Weaken'' = 3
   \<and> available nine_records ''Flaw'' = 3
   \<and> (\<exists>exam g'.
         compose three_categories nine_records (\<lambda>i. 0) [(''LR'', 9)] = Inr (exam, [], g')
         \<and> length exam = 9
         \<and> available exam ''Strengthen'' = 3
         \<and> available exam ''Weaken'' = 3
         \<and> available exam ''Flaw'' = 3)"
proof -
  let ?cats = "[(''Strengthen'', [''strengthen'']), (''Weaken'', [''weaken'']),
                (''Flaw'', [''flaw''])]"
  have a: "dict_get three_categories ''LR'' = Inr ?cats"
    by (simp add: three_categories_def)
  have b: "length ?cats = 3" by simp
  have c: "distinct (keys ?cats)" by (simp add: keys_def)
  have av: "available nine_records ''Strengthen'' = 3" "available nine_records ''Weaken'' = 3"
    "available nine_records ''Flaw'' = 3"
    unfolding available_def nine_records_def record_of_def by simp_all
  have d: "\<forall>t \<in> set (keys ?cats). 3 \<le> available nine_records t"
    using av by (simp add: keys_def)
  from compose_nine_of_three [OF a b c d, of "\<lambda>i. 0"] obtain exam g' where
    e: "compose three_categories nine_records (\<lambda>i. 0) [(''LR'', 9)] = Inr (exam, [], g')"
       "length exam = 9" "\<forall>t \<in> set (keys ?cats). available exam t = 3"
    by blast
  from e(3) have f: "available exam ''Strengthen'' = 3" "available exam ''Weaken'' = 3"
    "available exam ''Flaw'' = 3"
    by (simp_all add: keys_def)
  from e(1,2) f have "\<exists>exam g'.
         compose three_categories nine_records (\<lambda>i. 0) [(''LR'', 9)] = Inr (exam, [], g')
         \<and> length exam = 9
         \<and> available exam ''Strengthen'' = 3
         \<and> available exam ''Weaken'' = 3
         \<and> available exam ''Flaw'' = 3"
    by blast
  with a av show ?thesis by (intro conjI) assumption+
qed

section \<open>A category of two sections\<close>

lemma taken_all:
  assumes "list_all (\<lambda>(qtype, cnt). int (available pool qtype) \<le> cnt) counts"
  shows "taken pool counts = int (sum_list (map (available pool) (keys counts)))"
  using assms unfolding taken_def keys_def
  by (induction counts) (auto simp: split_beta)

lemma sum_indicator:
  assumes "distinct xs" and "a \<in> set xs"
  shows "sum_list (map (\<lambda>t. if t = a then 1 else 0) xs) = (1::nat)"
  using assms
proof (induction xs)
  case Nil
  then show ?case by simp
next
  case (Cons x xs)
  show ?case
  proof (cases "x = a")
    case True
    with Cons.prems have "a \<notin> set xs" by simp
    then have "sum_list (map (\<lambda>t. if t = a then 1 else 0) xs) = (0::nat)"
      by (induction xs) auto
    with True show ?thesis by simp
  next
    case False
    with Cons show ?thesis by simp
  qed
qed

lemma select_section_single:
  assumes "dict_get qt section = Inr categories"
    and "distinct (keys categories)"
    and "q_type q \<in> set (keys categories)"
    and "int (length categories) \<le> total'"
  shows "\<exists>warnings g'. select_section qt [q] g section total' = Inr ([q], warnings, g')"
proof -
  let ?types = "keys categories"
  let ?pool = "eligible ?types [q]"
  have pool: "?pool = [q]" using assms(3) by (simp add: eligible_def)
  have ne: "?types \<noteq> []" using assms(3) by auto
  then have cne: "categories \<noteq> []" by (auto simp: keys_def)
  have lt: "length ?types = length categories" by (simp add: keys_def)
  from allocate_counts [OF ne assms(2), of g total'] obtain counts g1 where
    a: "allocate g ?types total' = Inr (counts, g1)"
    and k: "keys counts = ?types"
    and b: "list_all (\<lambda>(qtype, cnt). total' div int (length ?types) \<le> cnt) counts"
    by blast
  have pos: "0 < int (length ?types)" using ne by simp
  have "int (length ?types) \<le> total'" using assms(4) lt by simp
  then have "0 < total' div int (length ?types)"
    using pos by (simp add: pos_imp_zdiv_pos_iff)
  then have base: "1 \<le> total' div int (length ?types)" by simp
  have av1: "available [q] t = (if t = q_type q then 1 else 0)" for t
    by (auto simp: available_def)
  from b base have ge: "list_all (\<lambda>(qtype, cnt). int (available [q] qtype) \<le> cnt) counts"
    by (auto simp: list_all_iff av1)
  from b base have nn: "list_all (\<lambda>(qtype, cnt). 0 \<le> cnt) counts"
    by (auto simp: list_all_iff)
  from category_loop_ok [OF nn, of g1 "[q]"] obtain selected g2 where
    c: "category_loop g1 [q] counts = Inr (selected, shortage_log [q] counts, g2)"
    and l: "int (length selected) = taken [q] counts"
    by blast
  have "taken [q] counts = int (sum_list (map (available [q]) ?types))"
    using taken_all [OF ge] k by simp
  also have "map (available [q]) ?types = map (\<lambda>t. if t = q_type q then 1 else 0) ?types"
    by (simp add: av1)
  also have "sum_list \<dots> = 1"
    using assms(2,3) by (rule sum_indicator)
  finally have one: "length selected = 1" using l by simp
  have d: "distinct (keys counts)" using k assms(2) by simp
  from category_loop_types [OF c d] have "\<forall>x \<in> set selected. x \<in> set [q]" by simp
  with one have "selected = [q]" by (cases selected) auto
  with c select_section_unfold [OF assms(1) a, of "[q]"] pool show ?thesis by simp
qed


text \<open>
  Claim C10. \<open>Inference\<close> is a category of both the LR and the RC section, so a record of
  that type in the bank is in the eligible pool of both. With a bank of one such record
  and the default structure, which has both sections, the composed exam holds that record
  twice, whatever the random draws.
\<close>

theorem inference_selected_twice:
  "(q_type q = ''Inference'' \<and> q \<in> set bank \<longrightarrow>
      q \<in> set (eligible (keys LR_TYPES) bank) \<and> q \<in> set (eligible (keys RC_TYPES) bank))
   \<and> dict_get QUESTION_TYPES ''LR'' = Inr LR_TYPES
   \<and> dict_get QUESTION_TYPES ''RC'' = Inr RC_TYPES
   \<and> (\<exists>logged g'.
         compose QUESTION_TYPES [inference_record] g DEFAULT_STRUCTURE
           = Inr ([inference_record, inference_record], logged, g'))"
proof (intro conjI impI)
  assume "q_type q = ''Inference'' \<and> q \<in> set bank"
  then show "q \<in> set (eligible (keys LR_TYPES) bank)"
    and "q \<in> set (eligible (keys RC_TYPES) bank)"
    by (simp_all add: eligible_def keys_def LR_TYPES_def RC_TYPES_def)
next
  show lr: "dict_get QUESTION_TYPES ''LR'' = Inr LR_TYPES" by (rule dict_get_LR)
  show rc: "dict_get QUESTION_TYPES ''RC'' = Inr RC_TYPES" by (rule dict_get_RC)
  let ?q = inference_record
  have t: "q_type ?q = ''Inference''" by (simp add: inference_record_def)
  have "\<exists>warnings g'. select_section QUESTION_TYPES [?q] g ''LR'' 25 = Inr ([?q], warnings, g')"
    using lr by (rule select_section_single) (simp_all add: t keys_def LR_TYPES_def)
  then obtain w1 g1 where
    s1: "select_section QUESTION_TYPES [?q] g ''LR'' 25 = Inr ([?q], w1, g1)" by blast
  have "\<exists>warnings g'. select_section QUESTION_TYPES [?q] g1 ''RC'' 27 = Inr ([?q], warnings, g')"
    using rc by (rule select_section_single) (simp_all add: t keys_def RC_TYPES_def)
  then obtain w2 g2 where
    s2: "select_section QUESTION_TYPES [?q] g1 ''RC'' 27 = Inr ([?q], w2, g2)" by blast
  have loop: "section_loop QUESTION_TYPES [?q] g DEFAULT_STRUCTURE = Inr ([?q, ?q], w1 @ w2, g2)"
    using s1 s2 by (simp add: DEFAULT_STRUCTURE_def)
  obtain exam g3 where sh: "random_shuffle g2 [?q, ?q] = (exam, g3)"
    by (cases "random_shuffle g2 [?q, ?q]")
  with random_shuffle_mset [of g2 "[?q, ?q]"] have ms: "mset exam = mset [?q, ?q]" by simp
  then have "length exam = 2" using mset_eq_length by fastforce
  moreover from ms have "set exam = {?q}" using mset_eq_setD by fastforce
  ultimately have "exam = [?q, ?q]"
    by (cases exam; cases "tl exam") auto
  with loop sh have "compose QUESTION_TYPES [?q] g DEFAULT_STRUCTURE
                       = Inr ([?q, ?q], w1 @ w2, g3)"
    by (simp add: compose_def)
  then show "\<exists>logged g'.
         compose QUESTION_TYPES [inference_record] g DEFAULT_STRUCTURE
           = Inr ([inference_record, inference_record], logged, g')"
    by blast
qed

text \<open>The first part of the theorem at the bank of that one record.\<close>

theorem inference_selected_twice_witness:
  "q_type inference_record = ''Inference''
   \<and> inference_record \<in> set [inference_record]
   \<and> inference_record \<in> set (eligible (keys LR_TYPES) [inference_record])
   \<and> inference_record \<in> set (eligible (keys RC_TYPES) [inference_record])
   \<and> (\<exists>logged g'.
         compose QUESTION_TYPES [inference_record] (\<lambda>i. 0) DEFAULT_STRUCTURE
           = Inr ([inference_record, inference_record], logged, g'))"
proof -
  have a: "q_type inference_record = ''Inference''" by (simp add: inference_record_def)
  have b: "inference_record \<in> set [inference_record]" by simp
  note inst = inference_selected_twice [of inference_record "[inference_record]" "\<lambda>i. 0"]
  from inst a b have c: "inference_record \<in> set (eligible (keys LR_TYPES) [inference_record])"
    and d: "inference_record \<in> set (eligible (keys RC_TYPES) [inference_record])"
    by blast+
  from inst have e: "\<exists>logged g'.
         compose QUESTION_TYPES [inference_record] (\<lambda>i. 0) DEFAULT_STRUCTURE
           = Inr ([inference_record, inference_record], logged, g')"
    by blast
  show ?thesis using a b c d e by (intro conjI) assumption+
qed

section \<open>The bank holds a text once\<close>

lemma contains_text_iff: "contains_text bank text \<longleftrightarrow> text \<in> set (map q_text bank)"
  by (auto simp: contains_text_def list_ex_iff)

lemma ingest_cases:
  "ingest bank filename text =
     (if strip text = [] then Inr (bank, ''Failed to extract text from '' @ filename)
      else if contains_text bank text then Inr (bank, ''Duplicate '' @ filename @ ''; skipped.'')
      else Inr (bank @ [\<lparr>q_text = text, q_type = classify_spec text, q_source = filename\<rparr>],
                ''Ingested '' @ filename @ '' as '' @ classify_spec text))"
  by (simp add: ingest_def classify_question_refines Let_def)

lemma ingest_distinct:
  assumes "distinct (map q_text bank)"
  shows "\<exists>bank1 message. ingest bank filename text = Inr (bank1, message)
           \<and> distinct (map q_text bank1)"
  using assms by (auto simp: ingest_cases contains_text_iff)

lemma ingest_all_distinct:
  assumes "distinct (map q_text bank)"
  shows "\<exists>bank1 messages. ingest_all bank files = Inr (bank1, messages)
           \<and> distinct (map q_text bank1)"
  using assms
proof (induction files arbitrary: bank)
  case Nil
  then show ?case by simp
next
  case (Cons f files)
  obtain fname body where f: "f = (fname, body)" by (cases f)
  from ingest_distinct [OF Cons.prems, of fname body] obtain bank1 message where
    i: "ingest bank fname body = Inr (bank1, message)" "distinct (map q_text bank1)"
    by blast
  from Cons.IH [OF i(2)] obtain bank2 messages where
    r: "ingest_all bank1 files = Inr (bank2, messages)" "distinct (map q_text bank2)"
    by blast
  from i(1) r f show ?case by simp
qed

text \<open>
  Claim C5. Adding a text that is already in the bank leaves the bank as it is and flashes
  the duplicate message. Adding a new text appends one record; the bank then holds exactly
  one record with that text if it held none before, and adding the text again, under any
  file name, is reported as a duplicate and changes nothing. Texts are compared as they
  are, whitespace included. So an upload batch keeps a bank free of repeated texts free of
  them, and every bank built from the empty bank by uploads is free of them.
\<close>

theorem ingest_no_duplicate_text:
  "(strip text \<noteq> [] \<and> contains_text bank text \<longrightarrow>
      ingest bank filename text = Inr (bank, ''Duplicate '' @ filename @ ''; skipped.''))
   \<and> (strip text \<noteq> [] \<and> \<not> contains_text bank text \<longrightarrow>
        (\<exists>bank1.
           ingest bank filename text
             = Inr (bank1, ''Ingested '' @ filename @ '' as '' @ classify_spec text)
           \<and> bank1 = bank @ [\<lparr>q_text = text, q_type = classify_spec text, q_source = filename\<rparr>]
           \<and> length (filter (\<lambda>e. q_text e = text) bank1) = 1
           \<and> ingest bank1 filename2 text
               = Inr (bank1, ''Duplicate '' @ filename2 @ ''; skipped.'')))
   \<and> (contains_text bank text \<longleftrightarrow> (\<exists>e \<in> set bank. q_text e = text))
   \<and> (distinct (map q_text bank) \<longrightarrow>
        (\<exists>bank1 messages. ingest_all bank files = Inr (bank1, messages)
           \<and> distinct (map q_text bank1)))
   \<and> (\<exists>bank1 messages. ingest_all [] files = Inr (bank1, messages)
         \<and> distinct (map q_text bank1))"
proof (intro conjI impI)
  assume "strip text \<noteq> [] \<and> contains_text bank text"
  then show "ingest bank filename text = Inr (bank, ''Duplicate '' @ filename @ ''; skipped.'')"
    by (simp add: ingest_cases)
next
  assume a: "strip text \<noteq> [] \<and> \<not> contains_text bank text"
  let ?bank1 = "bank @ [\<lparr>q_text = text, q_type = classify_spec text, q_source = filename\<rparr>]"
  from a have "filter (\<lambda>e. q_text e = text) bank = []"
    by (auto simp: contains_text_def list_ex_iff filter_empty_conv)
  then have one: "length (filter (\<lambda>e. q_text e = text) ?bank1) = 1" by simp
  have c: "contains_text ?bank1 text" by (simp add: contains_text_def)
  from a have "ingest bank filename text
                 = Inr (?bank1, ''Ingested '' @ filename @ '' as '' @ classify_spec text)"
    by (simp add: ingest_cases)
  moreover from a c have "ingest ?bank1 filename2 text
                            = Inr (?bank1, ''Duplicate '' @ filename2 @ ''; skipped.'')"
    by (simp add: ingest_cases)
  ultimately show "\<exists>bank1.
           ingest bank filename text
             = Inr (bank1, ''Ingested '' @ filename @ '' as '' @ classify_spec text)
           \<and> bank1 = bank @ [\<lparr>q_text = text, q_type = classify_spec text, q_source = filename\<rparr>]
           \<and> length (filter (\<lambda>e. q_text e = text) bank1) = 1
           \<and> ingest bank1 filename2 text
               = Inr (bank1, ''Duplicate '' @ filename2 @ ''; skipped.'')"
    using one by blast
next
  show "contains_text bank text \<longleftrightarrow> (\<exists>e \<in> set bank. q_text e = text)"
    by (simp add: contains_text_def list_ex_iff)
next
  assume "distinct (map q_text bank)"
  then show "\<exists>bank1 messages. ingest_all bank files = Inr (bank1, messages)
           \<and> distinct (map q_text bank1)"
    by (rule ingest_all_distinct)
next
  show "\<exists>bank1 messages. ingest_all [] files = Inr (bank1, messages)
         \<and> distinct (map q_text bank1)"
    by (rule ingest_all_distinct) simp
qed


text \<open>The theorem at the empty bank and the sample question, uploaded as \<open>q1.txt\<close>, then
  again as \<open>q2.txt\<close>, then with a trailing space as \<open>q3.txt\<close>.\<close>

theorem ingest_no_duplicate_text_witness:
  "strip sample_text \<noteq> [] \<and> \<not> contains_text [] sample_text
   \<and> ingest [] ''q1.txt'' sample_text
       = Inr ([\<lparr>q_text = sample_text, q_type = ''Strengthen'', q_source = ''q1.txt''\<rparr>],
              ''Ingested q1.txt as Strengthen'')
   \<and> contains_text [\<lparr>q_text = sample_text, q_type = ''Strengthen'', q_source = ''q1.txt''\<rparr>]
         sample_text
   \<and> ingest [\<lparr>q_text = sample_text, q_type = ''Strengthen'', q_source = ''q1.txt''\<rparr>]
         ''q2.txt'' sample_text
       = Inr ([\<lparr>q_text = sample_text, q_type = ''Strengthen'', q_source = ''q1.txt''\<rparr>],
              ''Duplicate q2.txt; skipped.'')
   \<and> distinct (map q_text [\<lparr>q_text = sample_text, q_type = ''Strengthen'',
                              q_source = ''q1.txt''\<rparr>])
   \<and> (\<exists>bank1 messages.
         ingest_all [\<lparr>q_text = sample_text, q_type = ''Strengthen'', q_source = ''q1.txt''\<rparr>]
           [(''q2.txt'', sample_text), (''q3.txt'', sample_text @ '' '')]
           = Inr (bank1, messages)
         \<and> distinct (map q_text bank1) \<and> length bank1 = 2)"
proof -
  let ?r = "\<lparr>q_text = sample_text, q_type = ''Strengthen'', q_source = ''q1.txt''\<rparr>"
  have s: "strip sample_text \<noteq> []" unfolding sample_text_def by code_simp
  have n: "\<not> contains_text [] sample_text" by (simp add: contains_text_def)
  have "classify_question sample_text = Inr ''Strengthen''"
    unfolding sample_text_def by code_simp
  then have cs: "classify_spec sample_text = ''Strengthen''"
    by (simp add: classify_question_refines)
  from ingest_no_duplicate_text [of sample_text "[]" "''q1.txt''" "''q2.txt''" "[]"] s n cs
  have a: "ingest [] ''q1.txt'' sample_text = Inr ([?r], ''Ingested q1.txt as Strengthen'')"
    and b: "ingest [?r] ''q2.txt'' sample_text = Inr ([?r], ''Duplicate q2.txt; skipped.'')"
    by auto
  have c: "contains_text [?r] sample_text" by (simp add: contains_text_def)
  have d: "distinct (map q_text [?r])" by simp
  let ?files = "[(''q2.txt'', sample_text), (''q3.txt'', sample_text @ '' '')]"
  from ingest_no_duplicate_text [of sample_text "[?r]" "''q1.txt''" "''q2.txt''" ?files] d
  obtain bank1 messages where
    e: "ingest_all [?r] ?files = Inr (bank1, messages)" "distinct (map q_text bank1)"
    by blast
  have "map_sum id (\<lambda>r. length (fst r)) (ingest_all [?r] ?files) = Inr 2"
    unfolding sample_text_def by code_simp
  with e(1) have "length bank1 = 2" by simp
  with e have f: "\<exists>bank1 messages. ingest_all [?r] ?files = Inr (bank1, messages)
         \<and> distinct (map q_text bank1) \<and> length bank1 = 2"
    by blast
  show ?thesis using s n a c b d f by (intro conjI) assumption+
qed


section \<open>Loading and saving the bank\<close>

text \<open>
  Claim C7, as the code has it. When the store is absent, or \<open>json.load\<close> rejects its
  contents with \<open>JSONDecodeError\<close>, loading returns the empty bank and raises nothing. It
  logs nothing either: the malformed store is replaced by an empty bank in silence.
\<close>

theorem load_bank_absent_or_malformed:
  "(fs BANK_FILE = None
      \<or> (\<exists>document. fs BANK_FILE = Some document \<and> json_load document = Inl JSONDecodeError))
   \<longrightarrow> load_bank json_load fs = (Inr [], [])"
  by (auto simp: load_bank_def)

text \<open>The two cases: no bank file, and a bank file with malformed JSON.\<close>

theorem load_bank_absent_or_malformed_witness:
  "absent_store BANK_FILE = None
   \<and> load_bank id absent_store = (Inr [], [])
   \<and> malformed_store BANK_FILE = Some (Inl JSONDecodeError)
   \<and> id (Inl JSONDecodeError :: py_error + entry list) = Inl JSONDecodeError
   \<and> load_bank id malformed_store = (Inr [], [])"
proof -
  have a: "absent_store BANK_FILE = None" by (simp add: absent_store_def)
  have b: "malformed_store BANK_FILE = Some (Inl JSONDecodeError)"
    by (simp add: malformed_store_def)
  have i: "id (Inl JSONDecodeError :: py_error + entry list) = Inl JSONDecodeError" by simp
  from load_bank_absent_or_malformed [of absent_store id] a
  have c: "load_bank id absent_store = (Inr [], [])"
    by blast
  from load_bank_absent_or_malformed [of malformed_store id] b i
  have d: "load_bank id malformed_store = (Inr [], [])"
    by blast
  show ?thesis using a c b i d by (intro conjI) assumption+
qed

text \<open>Claim C7 as stated fails: a bank file with malformed JSON is loaded as the empty
  bank and the log stays empty, so no warning reports the corruption.\<close>

theorem load_bank_logs_nothing:
  "malformed_store BANK_FILE = Some (Inl JSONDecodeError)
   \<and> fst (load_bank id malformed_store) = Inr []
   \<and> snd (load_bank id malformed_store) = []"
  by (simp add: load_bank_def malformed_store_def)




section \<open>Reproducible composition\<close>

text \<open>The exam does depend on the generator: two sequences of draws, two different exams
  from the same bank and structure.\<close>

lemma exam_depends_on_draws:
  "map_sum id (\<lambda>r. map q_source (fst r))
     (compose three_categories nine_records (\<lambda>i. 0) [(''LR'', 3)]) = Inr [''a1'', ''b1'', ''c1'']
   \<and> map_sum id (\<lambda>r. map q_source (fst r))
     (compose three_categories nine_records (\<lambda>i. 1) [(''LR'', 3)]) = Inr [''b2'', ''c2'', ''a2'']"
  by code_simp

text \<open>Without a seed in between, a second run starts from the generator state the first
  run left behind, and can compose another exam from the same bank and structure.\<close>

lemma unseeded_runs_differ:
  "(case compose three_categories nine_records (\<lambda>i. i div 4) [(''LR'', 3)] of
      Inl e \<Rightarrow> Inl e
    | Inr (exam1, logged1, g1) \<Rightarrow>
        (case compose three_categories nine_records g1 [(''LR'', 3)] of
           Inl e \<Rightarrow> Inl e
         | Inr (exam2, logged2, g2) \<Rightarrow> Inr (map q_source exam1, map q_source exam2)))
   = Inr ([''a1'', ''c1'', ''b1''], [''c3'', ''a2'', ''b2''])"
  by code_simp


end
